theory Spec2Isabelle
  imports Main "HOL-Library.Sublist"
begin

section \<open>Go strings and the library functions the program calls\<close>

text \<open>
  A Go string is a sequence of bytes, so it is a \<^typ>\<open>string\<close> here (a list of
  8-bit characters). The bytes the program names are given short names.
\<close>

abbreviation BSL :: char where "BSL \<equiv> CHR 0x5C"
abbreviation DQ :: char where "DQ \<equiv> CHR 0x22"
abbreviation NL :: char where "NL \<equiv> CHR 0x0A"
abbreviation CR :: char where "CR \<equiv> CHR 0x0D"

text \<open>
  \<^verbatim>\<open>unicode.IsSpace\<close> holds of U+0009..U+000D, U+0020, U+0085, U+00A0, U+1680,
  U+2000..U+200A, U+2028, U+2029, U+202F, U+205F and U+3000. \<open>spaceRunes\<close> lists the
  UTF-8 encoding of each of them. A string starts (ends) with a white space rune exactly
  when one of these byte sequences is a prefix (suffix) of it: UTF-8 decoding accepts
  only the shortest encoding of a rune, and an invalid byte decodes to U+FFFD, which
  is not white space.
\<close>

definition spaceRunes :: "string list" where
  "spaceRunes =
    [[CHR 0x09], [CHR 0x0A], [CHR 0x0B], [CHR 0x0C], [CHR 0x0D], [CHR 0x20],
     [CHR 0xC2, CHR 0x85], [CHR 0xC2, CHR 0xA0],
     [CHR 0xE1, CHR 0x9A, CHR 0x80],
     [CHR 0xE2, CHR 0x80, CHR 0x80], [CHR 0xE2, CHR 0x80, CHR 0x81],
     [CHR 0xE2, CHR 0x80, CHR 0x82], [CHR 0xE2, CHR 0x80, CHR 0x83],
     [CHR 0xE2, CHR 0x80, CHR 0x84], [CHR 0xE2, CHR 0x80, CHR 0x85],
     [CHR 0xE2, CHR 0x80, CHR 0x86], [CHR 0xE2, CHR 0x80, CHR 0x87],
     [CHR 0xE2, CHR 0x80, CHR 0x88], [CHR 0xE2, CHR 0x80, CHR 0x89],
     [CHR 0xE2, CHR 0x80, CHR 0x8A],
     [CHR 0xE2, CHR 0x80, CHR 0xA8], [CHR 0xE2, CHR 0x80, CHR 0xA9],
     [CHR 0xE2, CHR 0x80, CHR 0xAF],
     [CHR 0xE2, CHR 0x81, CHR 0x9F],
     [CHR 0xE3, CHR 0x80, CHR 0x80]]"

definition leadingSpace :: "string \<Rightarrow> string option" where
  "leadingSpace s = find (\<lambda>p. prefix p s) spaceRunes"

definition trailingSpace :: "string \<Rightarrow> string option" where
  "trailingSpace s = find (\<lambda>p. suffix p s) spaceRunes"

text \<open>\<^verbatim>\<open>strings.TrimLeftFunc(s, unicode.IsSpace)\<close>: drop white space runes from the front.\<close>

function trimLeftSpace :: "string \<Rightarrow> string" where
  "trimLeftSpace s =
     (case leadingSpace s of
        None \<Rightarrow> s
      | Some p \<Rightarrow> trimLeftSpace (drop (length p) s))"
  by pat_completeness auto
termination
proof (relation "measure length")
  fix s p
  assume "leadingSpace s = Some p"
  then have "p \<in> set spaceRunes" and "prefix p s"
    by (auto simp: leadingSpace_def find_Some_iff)
  then have "p \<noteq> []" and "length p \<le> length s"
    by (auto simp: spaceRunes_def prefix_length_le)
  then show "(drop (length p) s, s) \<in> measure length"
    by (cases p) auto
qed simp

text \<open>\<^verbatim>\<open>strings.TrimRightFunc(s, unicode.IsSpace)\<close>: drop white space runes from the end.\<close>

function trimRightSpace :: "string \<Rightarrow> string" where
  "trimRightSpace s =
     (case trailingSpace s of
        None \<Rightarrow> s
      | Some p \<Rightarrow> trimRightSpace (take (length s - length p) s))"
  by pat_completeness auto
termination
proof (relation "measure length")
  fix s p
  assume "trailingSpace s = Some p"
  then have "p \<in> set spaceRunes" and "suffix p s"
    by (auto simp: trailingSpace_def find_Some_iff)
  then have "p \<noteq> []" and "length p \<le> length s"
    by (auto simp: spaceRunes_def suffix_length_le)
  then show "(take (length s - length p) s, s) \<in> measure length"
    by (cases p) auto
qed simp

declare trimLeftSpace.simps [simp del]
declare trimRightSpace.simps [simp del]

text \<open>A byte that occurs in the encoding of no white space rune.\<close>

definition notInSpace :: "char \<Rightarrow> bool" where
  "notInSpace c = (\<forall>p\<in>set spaceRunes. c \<notin> set p)"

text \<open>\<^verbatim>\<open>strings.TrimSpace\<close>: the left trim, then the right trim of what is left.\<close>

definition TrimSpace :: "string \<Rightarrow> string" where
  "TrimSpace s = trimRightSpace (trimLeftSpace s)"

definition HasPrefix :: "string \<Rightarrow> string \<Rightarrow> bool" where
  "HasPrefix s p = prefix p s"

text \<open>
  \<^verbatim>\<open>strings.Index(s, sep)\<close> for a separator of one byte, as at every call: the index of
  its first occurrence, \<open>None\<close> for Go's -1.
\<close>

definition Index :: "string \<Rightarrow> char \<Rightarrow> nat option" where
  "Index s c = (if c \<in> set s then Some (length (takeWhile (\<lambda>x. x \<noteq> c) s)) else None)"

text \<open>
  \<^verbatim>\<open>strings.SplitN(s, sep, 2)\<close> for a separator of one byte: the text before the first
  separator and the text after it, or the whole string alone when there is none.
\<close>

definition SplitN2 :: "string \<Rightarrow> char \<Rightarrow> string list" where
  "SplitN2 s sep =
     (case Index s sep of
        None \<Rightarrow> [s]
      | Some i \<Rightarrow> [take i s, drop (i + 1) s])"

text \<open>\<^verbatim>\<open>strings.ContainsAny(s, chars)\<close> for ASCII \<open>chars\<close>: some byte of \<open>s\<close> is in \<open>chars\<close>.\<close>

definition ContainsAny :: "string \<Rightarrow> string \<Rightarrow> bool" where
  "ContainsAny s chars = list_ex (\<lambda>c. c \<in> set chars) s"

text \<open>
  \<^verbatim>\<open>strings.ReplaceAll(s, old, new)\<close>: the non-overlapping occurrences of \<open>old\<close>, found
  from the left, are replaced by \<open>new\<close>. Every call of the program passes a literal
  \<open>old\<close> of one or two bytes; an empty \<open>old\<close>, which Go treats specially, is never passed
  (the equations leave the string as it is there).
\<close>

fun ReplaceAll :: "string \<Rightarrow> string \<Rightarrow> string \<Rightarrow> string" where
  "ReplaceAll [] old new = []"
| "ReplaceAll (c # s) old new =
     (if old \<noteq> [] \<and> prefix old (c # s)
      then new @ ReplaceAll (drop (length old) (c # s)) old new
      else c # ReplaceAll s old new)"

section \<open>The codec (env\_utils.go)\<close>

record EnvVar =
  Key :: string
  Description :: string
  ExampleValue :: string

text \<open>
  The test \<^verbatim>\<open>len(v) >= 2 && v[0] == '"' && v[len(v)-1] == '"'\<close> and the un-escaping
  that follows it, written twice in the source (lines 41-45 and 118-123).
\<close>

definition isQuoted :: "string \<Rightarrow> bool" where
  "isQuoted v = (2 \<le> length v \<and> v ! 0 = DQ \<and> v ! (length v - 1) = DQ)"

definition unquote :: "string \<Rightarrow> string" where
  "unquote v =
     (let unquotedValue = take (length v - 2) (drop 1 v);
          unquotedValue = ReplaceAll unquotedValue [BSL, BSL] [BSL];
          unquotedValue = ReplaceAll unquotedValue [BSL, DQ] [DQ]
      in unquotedValue)"

text \<open>
  The body of the loop of \<^verbatim>\<open>readEnvVarsFromFile\<close>: one line of the template gives one
  \<open>EnvVar\<close>, or nothing (\<^verbatim>\<open>continue\<close>, or an empty key).
\<close>

definition decodeTemplateLine :: "string \<Rightarrow> EnvVar option" where
  "decodeTemplateLine line =
     (let lineForParsing = TrimSpace line in
      if lineForParsing = [] \<or> HasPrefix lineForParsing ''#'' then None
      else
        let (description, keyValuePart) =
              (case Index lineForParsing (CHR ''#'') of
                 None \<Rightarrow> ([], lineForParsing)
               | Some commentIdx \<Rightarrow>
                   (TrimSpace (drop (commentIdx + 1) lineForParsing),
                    TrimSpace (take commentIdx lineForParsing)));
            parts = SplitN2 keyValuePart (CHR ''='');
            key = TrimSpace (parts ! 0);
            exampleValue =
              (if length parts = 2 then
                 let valStr = TrimSpace (parts ! 1) in
                 if isQuoted valStr then unquote valStr
                 else if valStr \<noteq> [] then valStr
                 else []
               else [])
        in if key \<noteq> [] then
             Some \<lparr>Key = key, Description = description, ExampleValue = exampleValue\<rparr>
           else None)"

text \<open>The body of the loop of \<^verbatim>\<open>readExistingEnvFile\<close>.\<close>

definition decodeExistingConfigLine :: "string \<Rightarrow> (string \<times> string) option" where
  "decodeExistingConfigLine text =
     (let line = TrimSpace text in
      if line = [] \<or> HasPrefix line ''#'' then None
      else
        let parts = SplitN2 line (CHR ''='') in
        if length parts = 2 then
          let key = TrimSpace (parts ! 0);
              value = parts ! 1
          in Some (key, if isQuoted value then unquote value else value)
        else None)"

text \<open>The body of the loop of \<^verbatim>\<open>writeEnvFile\<close> (lines 70-88).\<close>

definition quoteChars :: string where
  "quoteChars = [CHR '' '', CHR ''#'', CHR ''='', DQ, CHR ''$'', BSL, CHR 0x60, NL, CR]"

definition needsQuoting :: "string \<Rightarrow> bool" where
  "needsQuoting v = (if v = [] then True else ContainsAny v quoteChars)"

definition outputValue :: "string \<Rightarrow> string" where
  "outputValue v =
     (if needsQuoting v then
        let escaped = ReplaceAll v [BSL] [BSL, BSL];
            escaped = ReplaceAll escaped [DQ] [BSL, DQ];
            escaped = ReplaceAll escaped [NL] [BSL, CHR ''n''];
            escaped = ReplaceAll escaped [CR] [BSL, CHR ''r'']
        in [DQ] @ escaped @ [DQ]
      else v)"

definition encodeEntry :: "string \<Rightarrow> string \<Rightarrow> string" where
  "encodeEntry k v = k @ ''='' @ outputValue v @ [NL]"


section \<open>Files and the scanner\<close>

text \<open>
  The file system is a map from paths to nodes. \<open>envOutputFilePath\<close> is the package
  variable of that name; \<^verbatim>\<open>writeEnvFile\<close> writes there, while the backup and the
  prefill use the literal paths \<^verbatim>\<open>.env\<close>, \<^verbatim>\<open>.env.old\<close> and \<^verbatim>\<open>.env.example\<close>.
\<close>

datatype node = RegularFile string | Directory

record world =
  files :: "string \<rightharpoonup> node"
  envOutputFilePath :: string

text \<open>
  A system call can fail for reasons the file map does not show (permissions, a full
  disk). \<open>faults\<close> says which calls do so in one run: \<open>readFault p = Some n\<close> makes
  the reader of \<open>p\<close> fail after \<open>n\<close> lines have been scanned, \<open>copyFault = Some n\<close> stops
  \<^verbatim>\<open>io.Copy\<close> after \<open>n\<close> bytes, \<open>writeFault = Some n\<close> lets the \<^verbatim>\<open>WriteString\<close>
  calls write \<open>n\<close> bytes altogether before one of them fails.
\<close>

record faults =
  openFault :: "string \<Rightarrow> bool"
  readFault :: "string \<Rightarrow> nat option"
  statFault :: "string \<Rightarrow> bool"
  createFault :: "string \<Rightarrow> bool"
  copyFault :: "nat option"
  syncFault :: bool
  writeFault :: "nat option"

definition noFaults :: faults where
  "noFaults = \<lparr>openFault = (\<lambda>_. False), readFault = (\<lambda>_. None), statFault = (\<lambda>_. False),
     createFault = (\<lambda>_. False), copyFault = None, syncFault = False, writeFault = None\<rparr>"

datatype ioerror = EOpen | EScan | ECreate | ECopy | ESync | EWrite

datatype error =
    ReadingExample ioerror
  | NoVariables
  | CastFailed string
  | WritingEnv ioerror

text \<open>
  \<^verbatim>\<open>bufio.Scanner\<close> with \<^verbatim>\<open>ScanLines\<close>: the data is cut at each newline, one trailing
  carriage return of a line is dropped, and a last line without a newline is a line
  when it is not empty. A line of \<^verbatim>\<open>bufio.MaxScanTokenSize\<close> bytes or more stops the
  scanner with \<^verbatim>\<open>ErrTooLong\<close>: the result is the lines before it and \<open>True\<close>.
\<close>

definition maxScanTokenSize :: nat where
  "maxScanTokenSize = 64 * 1024"

definition dropCR :: "string \<Rightarrow> string" where
  "dropCR l = (if l \<noteq> [] \<and> last l = CR then butlast l else l)"

function scanLines :: "string \<Rightarrow> string list \<times> bool" where
  "scanLines data =
     (if data = [] then ([], False)
      else
        let raw = takeWhile (\<lambda>c. c \<noteq> NL) data in
        if maxScanTokenSize \<le> length raw then ([], True)
        else (case scanLines (drop (length raw + 1) data) of
                (ls, e) \<Rightarrow> (dropCR raw # ls, e)))"
  by pat_completeness auto
termination
  by (relation "measure length") auto

declare scanLines.simps [simp del]

datatype 'a opened = ErrNotExist | ErrOther | Opened 'a

text \<open>
  \<^verbatim>\<open>os.Open\<close> followed by the scanner loop: the lines the loop sees, and whether
  \<^verbatim>\<open>scanner.Err()\<close> is set after it. A directory opens, and reading it fails.
\<close>

definition openAndScan :: "faults \<Rightarrow> world \<Rightarrow> string \<Rightarrow> (string list \<times> bool) opened" where
  "openAndScan flt w path =
     (case files w path of
        None \<Rightarrow> ErrNotExist
      | Some n \<Rightarrow>
          if openFault flt path then ErrOther
          else (case n of
                  Directory \<Rightarrow> Opened ([], True)
                | RegularFile data \<Rightarrow>
                    (case readFault flt path of
                       None \<Rightarrow> Opened (scanLines data)
                     | Some k \<Rightarrow> Opened (take k (fst (scanLines data)), True))))"

fun templateLoop :: "string list \<Rightarrow> EnvVar list \<Rightarrow> EnvVar list" where
  "templateLoop [] envVars = envVars"
| "templateLoop (line # rest) envVars =
     templateLoop rest
       (case decodeTemplateLine line of
          None \<Rightarrow> envVars
        | Some envVar \<Rightarrow> envVars @ [envVar])"

definition readEnvVarsFromFile :: "faults \<Rightarrow> world \<Rightarrow> string \<Rightarrow> ioerror + EnvVar list" where
  "readEnvVarsFromFile flt w filePath =
     (case openAndScan flt w filePath of
        ErrNotExist \<Rightarrow> Inl EOpen
      | ErrOther \<Rightarrow> Inl EOpen
      | Opened (ls, scanErr) \<Rightarrow>
          let envVars = templateLoop ls [] in
          if scanErr then Inl EScan else Inr envVars)"

fun existingLoop :: "string list \<Rightarrow> (string \<rightharpoonup> string) \<Rightarrow> (string \<rightharpoonup> string)" where
  "existingLoop [] values = values"
| "existingLoop (text # rest) values =
     existingLoop rest
       (case decodeExistingConfigLine text of
          None \<Rightarrow> values
        | Some (key, value) \<Rightarrow> values(key \<mapsto> value))"

text \<open>
  \<^verbatim>\<open>readExistingEnvFile\<close> returns a map and an error; the nil map of the failed open
  is the empty map (a nil map reads as an empty one in Go).
\<close>

definition readExistingEnvFile ::
  "faults \<Rightarrow> world \<Rightarrow> string \<Rightarrow> (string \<rightharpoonup> string) \<times> ioerror option" where
  "readExistingEnvFile flt w filePath =
     (case openAndScan flt w filePath of
        ErrNotExist \<Rightarrow> (Map.empty, None)
      | ErrOther \<Rightarrow> (Map.empty, Some EOpen)
      | Opened (ls, scanErr) \<Rightarrow>
          let values = existingLoop ls Map.empty in
          if scanErr then (values, Some EScan) else (values, None))"

text \<open>
  The loop of \<^verbatim>\<open>writeEnvFile\<close>. Go ranges over a map in an order of the runtime's
  choosing: \<open>order\<close> is that order, an enumeration of the keys of \<open>values\<close>. The first
  argument is the number of bytes that can still be written before the injected
  fault; the result is the content of the file and whether every write succeeded.
\<close>

fun writeLoop ::
  "nat option \<Rightarrow> (string \<rightharpoonup> string) \<Rightarrow> string list \<Rightarrow> string \<Rightarrow> string \<times> bool" where
  "writeLoop budget values [] content = (content, True)"
| "writeLoop budget values (key # rest) content =
     (case values key of
        None \<Rightarrow> writeLoop budget values rest content
      | Some value \<Rightarrow>
          let entry = encodeEntry key value in
          (case budget of
             None \<Rightarrow> writeLoop None values rest (content @ entry)
           | Some n \<Rightarrow>
               if n < length entry then (content @ take n entry, False)
               else writeLoop (Some (n - length entry)) values rest (content @ entry)))"

definition writeEnvFile ::
  "faults \<Rightarrow> world \<Rightarrow> (string \<rightharpoonup> string) \<Rightarrow> string list \<Rightarrow> world \<times> ioerror option" where
  "writeEnvFile flt w values order =
     (let path = envOutputFilePath w in
      if files w path = Some Directory \<or> createFault flt path then (w, Some ECreate)
      else
        (case writeLoop (writeFault flt) values order [] of
           (content, ok) \<Rightarrow>
             (w\<lparr>files := (files w)(path \<mapsto> RegularFile content)\<rparr>,
              if ok then None else Some EWrite)))"

text \<open>
  \<^verbatim>\<open>backupEnvFile\<close>: open the source, create (truncate) the destination, copy, sync.
  The source is read after the destination has been created, as in the code.
\<close>

definition backupEnvFile ::
  "faults \<Rightarrow> world \<Rightarrow> string \<Rightarrow> string \<Rightarrow> world \<times> ioerror option" where
  "backupEnvFile flt w srcPath dstPath =
     (if files w srcPath = None \<or> openFault flt srcPath then (w, Some EOpen)
      else if files w dstPath = Some Directory \<or> createFault flt dstPath then (w, Some ECreate)
      else
        let w1 = w\<lparr>files := (files w)(dstPath \<mapsto> RegularFile [])\<rparr> in
        (case files w1 srcPath of
           Some (RegularFile data) \<Rightarrow>
             (case copyFault flt of
                Some n \<Rightarrow>
                  (w1\<lparr>files := (files w1)(dstPath \<mapsto> RegularFile (take n data))\<rparr>, Some ECopy)
              | None \<Rightarrow>
                  let w2 = w1\<lparr>files := (files w1)(dstPath \<mapsto> RegularFile data)\<rparr> in
                  if syncFault flt then (w2, Some ESync) else (w2, None))
         | _ \<Rightarrow> (w1, Some ECopy)))"

section \<open>The workflow (model.go)\<close>

datatype FormState = StateNormal | StateCompleted | StateAborted

text \<open>A \<^verbatim>\<open>huh.Field\<close>: a text input with its current value, or a field of another kind.\<close>

datatype Field = Input string | OtherField

datatype Msg = WindowSizeMsg int int | KeyMsg string | OtherMsg

datatype Cmd = Quit | Continue

record model =
  form :: "FormState option"
  envVars :: "EnvVar list"
  existingEnvValues :: "string \<rightharpoonup> string"
  formFields :: "Field list"
  width :: int
  height :: int
  quitting :: bool
  err :: "error option"
  confirming :: bool
  confirmForm :: "FormState option"
  envValuesToSave :: "string \<rightharpoonup> string"
  applyChanges :: bool
  diffSummary :: string

definition initialModel :: model where
  "initialModel =
     \<lparr>form = None, envVars = [], existingEnvValues = Map.empty, formFields = [],
      width = 0, height = 0, quitting = False, err = None, confirming = False,
      confirmForm = None, envValuesToSave = Map.empty, applyChanges = True,
      diffSummary = []\<rparr>"

text \<open>The value a field starts with (\<^verbatim>\<open>Init\<close>, lines 63-71).\<close>

definition initialValueOf :: "(string \<rightharpoonup> string) \<Rightarrow> EnvVar \<Rightarrow> string" where
  "initialValueOf existing envVar =
     (let localKey = Key envVar;
          (initialValue, valueExistsInEnv) =
             (case existing localKey of None \<Rightarrow> ([], False) | Some v \<Rightarrow> (v, True))
      in if \<not> valueExistsInEnv \<or> initialValue = [] then
           (if ExampleValue envVar \<noteq> [] then ExampleValue envVar else initialValue)
         else initialValue)"

definition Init :: "model \<Rightarrow> world \<Rightarrow> faults \<Rightarrow> model \<times> Cmd" where
  "Init m w flt =
     (case readEnvVarsFromFile flt w ''.env.example'' of
        Inl e \<Rightarrow> (m\<lparr>envVars := [], err := Some (ReadingExample e)\<rparr>, Quit)
      | Inr vars \<Rightarrow>
          if length vars = 0 then (m\<lparr>envVars := vars, err := Some NoVariables\<rparr>, Quit)
          else
            let existing =
                  (case readExistingEnvFile flt w ''.env'' of
                     (values, None) \<Rightarrow> values
                   | (values, Some e) \<Rightarrow> Map.empty)
            in (m\<lparr>envVars := vars,
                  existingEnvValues := existing,
                  formFields := map (\<lambda>envVar. Input (initialValueOf existing envVar)) vars,
                  form := Some StateNormal\<rparr>,
                Continue))"

text \<open>
  The diff of \<^verbatim>\<open>prepareForConfirmation\<close> (lines 214-237). The source appends a
  formatted line per change; here the change is kept as a record and \<open>formatChange\<close>
  renders it as the \<^verbatim>\<open>Sprintf\<close> calls do.
\<close>

datatype ChangeRecord =
    Added (recordKey: string) string
  | Changed (recordKey: string) string string
  | Cleared (recordKey: string) string

fun formatChange :: "ChangeRecord \<Rightarrow> string" where
  "formatChange (Added key newValue) =
     ''+ Added: '' @ key @ ''='' @ [DQ] @ newValue @ [DQ]"
| "formatChange (Cleared key oldValue) =
     ''~ Cleared: '' @ key @ '' (was '' @ [DQ] @ oldValue @ [DQ] @ '')''"
| "formatChange (Changed key oldValue newValue) =
     ''~ Changed: '' @ key @ '': '' @ [DQ] @ oldValue @ [DQ] @ '' -> '' @ [DQ] @ newValue @ [DQ]"

fun Join :: "string list \<Rightarrow> string \<Rightarrow> string" where
  "Join [] sep = []"
| "Join [x] sep = x"
| "Join (x # y # zs) sep = x @ sep @ Join (y # zs) sep"

fun diffLoop ::
  "(string \<rightharpoonup> string) \<Rightarrow> (string \<rightharpoonup> string) \<Rightarrow> string list
     \<Rightarrow> ChangeRecord list \<times> bool \<Rightarrow> ChangeRecord list \<times> bool" where
  "diffLoop old new [] (diffLines, changed) = (diffLines, changed)"
| "diffLoop old new (key # rest) (diffLines, changed) =
     (let oldExists = (old key \<noteq> None);
          oldValue = (case old key of None \<Rightarrow> [] | Some v \<Rightarrow> v);
          newValue = (case new key of None \<Rightarrow> [] | Some v \<Rightarrow> v)
      in diffLoop old new rest
           (if \<not> oldExists \<and> newValue \<noteq> [] then
              (diffLines @ [Added key newValue], True)
            else if oldExists \<and> newValue \<noteq> oldValue then
              (if newValue = [] then (diffLines @ [Cleared key oldValue], True)
               else (diffLines @ [Changed key oldValue newValue], True))
            else if \<not> oldExists \<and> newValue = [] then
              (diffLines @ [Added key []], True)
            else (diffLines, changed)))"

definition computeChanges ::
  "(string \<rightharpoonup> string) \<Rightarrow> (string \<rightharpoonup> string) \<Rightarrow> string list \<Rightarrow> ChangeRecord list" where
  "computeChanges old new keyOrder = fst (diffLoop old new keyOrder ([], False))"

text \<open>
  A call returns a value, returns an error, or panics (an index out of range, a nil
  form).
\<close>

datatype 'a res = Ok 'a | Err error | Panic

fun collectValues ::
  "EnvVar list \<Rightarrow> Field list \<Rightarrow> (string \<rightharpoonup> string) \<Rightarrow> (string \<rightharpoonup> string) res" where
  "collectValues [] fs collected = Ok collected"
| "collectValues (envVar # rest) [] collected = Panic"
| "collectValues (envVar # rest) (Input val # fs) collected =
     collectValues rest fs (collected(Key envVar \<mapsto> val))"
| "collectValues (envVar # rest) (OtherField # fs) collected = Err (CastFailed (Key envVar))"

definition prepareForConfirmation :: "model \<Rightarrow> model res" where
  "prepareForConfirmation m =
     (case collectValues (envVars m) (formFields m) Map.empty of
        Panic \<Rightarrow> Panic
      | Err e \<Rightarrow> Err e
      | Ok collectedEnvValues \<Rightarrow>
          (case diffLoop (existingEnvValues m) collectedEnvValues (map Key (envVars m))
                  ([], False) of
             (diffLines, changed) \<Rightarrow>
               if \<not> changed then
                 Ok (m\<lparr>diffSummary := ''No changes to apply to .env file.'',
                       quitting := True\<rparr>)
               else
                 Ok (m\<lparr>envValuesToSave := collectedEnvValues,
                       diffSummary := Join (map formatChange diffLines) [NL],
                       confirmForm := Some StateNormal,
                       confirming := True\<rparr>)))"

definition actuallyWriteEnvFile ::
  "faults \<Rightarrow> world \<Rightarrow> (string \<rightharpoonup> string) \<Rightarrow> string list \<Rightarrow> world \<times> error option" where
  "actuallyWriteEnvFile flt w envValues order =
     (let w1 =
        (case files w ''.env'' of
           None \<Rightarrow> w
         | Some info \<Rightarrow>
             if statFault flt ''.env'' then w
             else (case info of
                     Directory \<Rightarrow> w
                   | RegularFile _ \<Rightarrow> fst (backupEnvFile flt w ''.env'' ''.env.old'')))
      in case writeEnvFile flt w1 envValues order of
           (w2, None) \<Rightarrow> (w2, None)
         | (w2, Some e) \<Rightarrow> (w2, Some (WritingEnv e)))"

text \<open>
  What the surroundings contribute to one call of \<^verbatim>\<open>Update\<close>: the state of the form
  that handles the message once it has handled it, the values its inputs then hold,
  the answer the confirm field has stored in \<open>applyChanges\<close>, the order in which the
  runtime ranges over the map to save, and the faults of the system calls.
\<close>

record reply =
  formStateAfter :: FormState
  inputValues :: "string list"
  confirmValue :: bool
  rangeOrder :: "string list"
  ioFaults :: faults

fun setValues :: "Field list \<Rightarrow> string list \<Rightarrow> Field list" where
  "setValues [] vs = []"
| "setValues fs [] = fs"
| "setValues (Input _ # fs) (v # vs) = Input v # setValues fs vs"
| "setValues (OtherField # fs) (v # vs) = OtherField # setValues fs vs"

definition Update :: "model \<Rightarrow> world \<Rightarrow> Msg \<Rightarrow> reply \<Rightarrow> (model \<times> world \<times> Cmd) option" where
  "Update m0 w msg rep =
     (if err m0 \<noteq> None then Some (m0, w, Quit)
      else if quitting m0 then Some (m0, w, Quit)
      else
        let m = (case msg of
                   WindowSizeMsg wd ht \<Rightarrow> m0\<lparr>width := wd, height := ht\<rparr>
                 | _ \<Rightarrow> m0)
        in
        if msg = KeyMsg ''ctrl+c'' then Some (m\<lparr>quitting := True\<rparr>, w, Quit)
        else if confirming m then
          (case confirmForm m of
             None \<Rightarrow> None
           | Some _ \<Rightarrow>
               let m = m\<lparr>confirmForm := Some (formStateAfter rep),
                         applyChanges := confirmValue rep\<rparr>
               in
               if formStateAfter rep = StateCompleted then
                 (if applyChanges m then
                    (case actuallyWriteEnvFile (ioFaults rep) w (envValuesToSave m)
                            (rangeOrder rep) of
                       (w', e) \<Rightarrow> Some (m\<lparr>err := e, quitting := True\<rparr>, w', Quit))
                  else Some (m\<lparr>quitting := True\<rparr>, w, Quit))
               else if formStateAfter rep = StateAborted then
                 Some (m\<lparr>quitting := True\<rparr>, w, Quit)
               else Some (m, w, Continue))
        else
          (case form m of
             None \<Rightarrow> None
           | Some _ \<Rightarrow>
               let m = m\<lparr>form := Some (formStateAfter rep),
                         formFields := setValues (formFields m) (inputValues rep)\<rparr>
               in
               if formStateAfter rep = StateCompleted then
                 (case prepareForConfirmation m of
                    Panic \<Rightarrow> None
                  | Err e \<Rightarrow> Some (m\<lparr>err := Some e, quitting := True\<rparr>, w, Quit)
                  | Ok m' \<Rightarrow>
                      if quitting m' then Some (m', w, Quit)
                      else Some (m', w, Continue))
               else if formStateAfter rep = StateAborted then
                 Some (m\<lparr>quitting := True\<rparr>, w, Quit)
               else Some (m, w, Continue)))"

text \<open>A run: the messages the runtime delivers, one call of \<^verbatim>\<open>Update\<close> each.\<close>

fun run :: "model \<times> world \<Rightarrow> (Msg \<times> reply) list \<Rightarrow> (model \<times> world) option" where
  "run s [] = Some s"
| "run (m, w) ((msg, rep) # evs) =
     (case Update m w msg rep of
        None \<Rightarrow> None
      | Some (m', w', c) \<Rightarrow> run (m', w') evs)"

text \<open>
  The states between two messages, once \<^verbatim>\<open>Init\<close> has run. When a confirmation has
  been asked for, the values to save are the template's keys and their diff is not
  empty. Unless the program has failed or is quitting, the main form exists with
  one text input per template entry, and the confirm form exists while the
  confirmation is pending.
\<close>

definition ready :: "model \<Rightarrow> bool" where
  "ready m \<longleftrightarrow>
     (confirming m \<longrightarrow>
        dom (envValuesToSave m) = Key ` set (envVars m) \<and>
        computeChanges (existingEnvValues m) (envValuesToSave m) (map Key (envVars m)) \<noteq> [])
     \<and> (err m \<noteq> None \<or> quitting m \<or>
          (form m \<noteq> None \<and> length (formFields m) = length (envVars m) \<and>
           OtherField \<notin> set (formFields m) \<and>
           (confirming m \<longrightarrow> confirmForm m \<noteq> None)))"

text \<open>
  A run used to exercise the theorems below: the template declares \<open>A\<close>, \<open>B\<close> and
  \<open>C\<close>; the target file sets \<open>A\<close>, sets \<open>B\<close> to the empty string and sets \<open>X\<close>, which
  the template does not declare. The user types a new value for \<open>A\<close>, accepts the
  default of \<open>B\<close>, leaves \<open>C\<close> empty, and answers yes.
\<close>

definition scenarioWorld :: world where
  "scenarioWorld =
     \<lparr>files = [''.env.example'' \<mapsto> RegularFile (''A=1'' @ [NL] @ ''B=2 # desc'' @ [NL] @ ''C''),
               ''.env'' \<mapsto> RegularFile (''A=old'' @ [NL] @ ''B='' @ [NL] @ ''X=1'')],
      envOutputFilePath = ''.env''\<rparr>"

definition scenarioReply :: reply where
  "scenarioReply =
     \<lparr>formStateAfter = StateCompleted, inputValues = [''new value'', ''2'', []],
      confirmValue = True, rangeOrder = [''C'', ''A'', ''B''], ioFaults = noFaults\<rparr>"

section \<open>Properties of the string functions\<close>

lemma spaceRunes_nonempty: "p \<in> set spaceRunes \<Longrightarrow> p \<noteq> []"
  by (auto simp: spaceRunes_def)

lemma leadingSpace_SomeD:
  "leadingSpace s = Some p \<Longrightarrow> p \<in> set spaceRunes \<and> prefix p s"
  by (auto simp: leadingSpace_def find_Some_iff)

lemma trailingSpace_SomeD:
  "trailingSpace s = Some p \<Longrightarrow> p \<in> set spaceRunes \<and> suffix p s"
  by (auto simp: trailingSpace_def find_Some_iff)

lemma notInSpace_chars:
  "notInSpace (CHR ''='')" "notInSpace (CHR ''#'')" "notInSpace DQ"
  by (simp_all add: notInSpace_def spaceRunes_def)

lemma leadingSpace_shorter:
  assumes "leadingSpace s = Some p"
  shows "length (drop (length p) s) < length s"
proof -
  from assms have "p \<in> set spaceRunes" and "prefix p s"
    by (auto dest: leadingSpace_SomeD)
  then have "p \<noteq> []" and "length p \<le> length s"
    by (auto simp: spaceRunes_nonempty prefix_length_le)
  then show ?thesis by (cases p) auto
qed

lemma trailingSpace_shorter:
  assumes "trailingSpace s = Some p"
  shows "length (take (length s - length p) s) < length s"
proof -
  from assms have "p \<in> set spaceRunes" and "suffix p s"
    by (auto dest: trailingSpace_SomeD)
  then have "p \<noteq> []" and "length p \<le> length s"
    by (auto simp: spaceRunes_nonempty suffix_length_le)
  then show ?thesis by (cases p) auto
qed

lemma trimLeftSpace_None: "leadingSpace s = None \<Longrightarrow> trimLeftSpace s = s"
  by (simp add: trimLeftSpace.simps)

lemma trimRightSpace_None: "trailingSpace s = None \<Longrightarrow> trimRightSpace s = s"
  by (simp add: trimRightSpace.simps)

lemma length_trimLeftSpace: "length (trimLeftSpace s) \<le> length s"
proof (induction s rule: trimLeftSpace.induct)
  case (1 s)
  show ?case
  proof (cases "leadingSpace s")
    case None
    then show ?thesis by (simp add: trimLeftSpace_None)
  next
    case (Some p)
    with 1 have "length (trimLeftSpace (drop (length p) s)) \<le> length (drop (length p) s)"
      by simp
    with Some show ?thesis
      by (subst trimLeftSpace.simps) simp
  qed
qed

lemma length_trimRightSpace: "length (trimRightSpace s) \<le> length s"
proof (induction s rule: trimRightSpace.induct)
  case (1 s)
  show ?case
  proof (cases "trailingSpace s")
    case None
    then show ?thesis by (simp add: trimRightSpace_None)
  next
    case (Some p)
    with 1 have "length (trimRightSpace (take (length s - length p) s))
        \<le> length (take (length s - length p) s)"
      by simp
    with Some show ?thesis
      by (subst trimRightSpace.simps) simp
  qed
qed

lemma trimLeftSpace_fixed: "trimLeftSpace s = s \<Longrightarrow> leadingSpace s = None"
proof (rule ccontr)
  assume eq: "trimLeftSpace s = s" and "leadingSpace s \<noteq> None"
  then obtain p where p: "leadingSpace s = Some p" by auto
  then have "length (drop (length p) s) < length s"
    by (rule leadingSpace_shorter)
  moreover have "trimLeftSpace s = trimLeftSpace (drop (length p) s)"
    using p by (subst trimLeftSpace.simps) simp
  ultimately show False
    using length_trimLeftSpace [of "drop (length p) s"] eq by simp
qed

lemma trimRightSpace_fixed: "trimRightSpace s = s \<Longrightarrow> trailingSpace s = None"
proof (rule ccontr)
  assume eq: "trimRightSpace s = s" and "trailingSpace s \<noteq> None"
  then obtain p where p: "trailingSpace s = Some p" by auto
  then have "length (take (length s - length p) s) < length s"
    by (rule trailingSpace_shorter)
  moreover have "trimRightSpace s = trimRightSpace (take (length s - length p) s)"
    using p by (subst trimRightSpace.simps) simp
  ultimately show False
    using length_trimRightSpace [of "take (length s - length p) s"] eq by simp
qed

lemma TrimSpace_fixed:
  assumes "TrimSpace s = s"
  shows "leadingSpace s = None" and "trailingSpace s = None"
proof -
  have "length s \<le> length (trimLeftSpace s)"
    using assms length_trimRightSpace [of "trimLeftSpace s"] by (simp add: TrimSpace_def)
  moreover have "\<exists>q. leadingSpace s = Some q \<Longrightarrow> length (trimLeftSpace s) < length s"
  proof -
    assume "\<exists>q. leadingSpace s = Some q"
    then obtain p where p: "leadingSpace s = Some p" by auto
    then have "length (drop (length p) s) < length s"
      by (rule leadingSpace_shorter)
    moreover have "trimLeftSpace s = trimLeftSpace (drop (length p) s)"
      using p by (subst trimLeftSpace.simps) simp
    ultimately show ?thesis
      using length_trimLeftSpace [of "drop (length p) s"] by simp
  qed
  ultimately show l: "leadingSpace s = None"
    by (cases "leadingSpace s") auto
  then have "trimRightSpace s = s"
    using assms by (simp add: TrimSpace_def trimLeftSpace_None)
  then show "trailingSpace s = None"
    by (rule trimRightSpace_fixed)
qed


lemma leadingSpace_None_iff: "leadingSpace s = None \<longleftrightarrow> (\<forall>p\<in>set spaceRunes. \<not> prefix p s)"
  by (auto simp: leadingSpace_def find_None_iff)

lemma trailingSpace_None_iff: "trailingSpace s = None \<longleftrightarrow> (\<forall>p\<in>set spaceRunes. \<not> suffix p s)"
  by (auto simp: trailingSpace_def find_None_iff)

lemma leadingSpace_append:
  assumes "leadingSpace k = None" and "notInSpace c"
  shows "leadingSpace (k @ c # r) = None"
  unfolding leadingSpace_None_iff
proof
  fix p assume p: "p \<in> set spaceRunes"
  show "\<not> prefix p (k @ c # r)"
  proof
    assume "prefix p (k @ c # r)"
    then consider "prefix p k" | us where "p = k @ us" "prefix us (c # r)"
      by (auto simp: prefix_append)
    then show False
    proof cases
      case 1
      with p assms(1) show False by (simp add: leadingSpace_None_iff)
    next
      case 2
      show False
      proof (cases us)
        case Nil
        with 2 p assms(1) show False by (auto simp: leadingSpace_None_iff)
      next
        case (Cons u us')
        with 2 have "c \<in> set p" by (auto simp: prefix_Cons)
        with p assms(2) show False by (auto simp: notInSpace_def)
      qed
    qed
  qed
qed

lemma suffix_across:
  assumes "suffix p (r @ c # w)" and "c \<notin> set p"
  shows "suffix p w"
proof -
  from assms(1) have "suffix p (c # w) \<or> (\<exists>us. p = us @ c # w \<and> suffix us r)"
    by (simp add: suffix_append)
  with assms(2) have "suffix p (c # w)" by auto
  with assms(2) show ?thesis by (auto simp: suffix_Cons)
qed

lemma trailingSpace_append:
  assumes "notInSpace c"
  shows "trailingSpace (r @ c # w) = trailingSpace w"
proof -
  have "\<And>p. p \<in> set spaceRunes \<Longrightarrow> suffix p (r @ c # w) \<longleftrightarrow> suffix p w"
  proof -
    fix p assume "p \<in> set spaceRunes"
    with assms have "c \<notin> set p" by (simp add: notInSpace_def)
    then have "suffix p (r @ c # w) \<Longrightarrow> suffix p w" by (rule suffix_across [rotated])
    moreover have "suffix p w \<Longrightarrow> suffix p (r @ c # w)"
      by (metis suffix_append suffix_Cons append_Cons)
    ultimately show "suffix p (r @ c # w) \<longleftrightarrow> suffix p w" by blast
  qed
  then show ?thesis
    unfolding trailingSpace_def by (auto intro: find_cong)
qed

lemma trimRightSpace_append:
  assumes "notInSpace c"
  shows "trimRightSpace (r @ c # w) = r @ c # trimRightSpace w"
proof (induction w rule: trimRightSpace.induct)
  case (1 w)
  show ?case
  proof (cases "trailingSpace w")
    case None
    then show ?thesis
      using assms by (simp add: trimRightSpace_None trailingSpace_append)
  next
    case (Some p)
    then have ps: "suffix p w" by (auto dest: trailingSpace_SomeD)
    then have len: "length p \<le> length w" by (rule suffix_length_le)
    have "trimRightSpace (r @ c # w) =
          trimRightSpace (take (length (r @ c # w) - length p) (r @ c # w))"
      using Some assms by (subst trimRightSpace.simps) (simp add: trailingSpace_append)
    also have "take (length (r @ c # w) - length p) (r @ c # w)
               = r @ c # take (length w - length p) w"
      using len by (simp add: Suc_diff_le)
    also have "trimRightSpace \<dots> = r @ c # trimRightSpace (take (length w - length p) w)"
      using 1 Some by simp
    also have "trimRightSpace (take (length w - length p) w) = trimRightSpace w"
      using Some by (subst (2) trimRightSpace.simps) simp
    finally show ?thesis .
  qed
qed

lemma SplitN2_at:
  assumes "c \<notin> set k"
  shows "SplitN2 (k @ c # w) c = [k, w]"
proof -
  have "takeWhile (\<lambda>x. x \<noteq> c) (k @ c # w) = k"
    using assms by (induction k) auto
  then show ?thesis
    by (simp add: SplitN2_def Index_def)
qed

lemma TrimSpace_entry:
  assumes "TrimSpace k = k" and "notInSpace c"
  shows "TrimSpace (k @ c # w) = k @ c # trimRightSpace w"
proof -
  have "leadingSpace (k @ c # w) = None"
    using assms by (simp add: leadingSpace_append TrimSpace_fixed)
  then show ?thesis
    using assms(2) by (simp add: TrimSpace_def trimLeftSpace_None trimRightSpace_append)
qed

lemma not_hash_prefix:
  "\<not> HasPrefix k ''#'' \<Longrightarrow> \<not> HasPrefix (k @ CHR ''='' # w) ''#''"
  by (cases k) (auto simp: HasPrefix_def)

lemma decode_entry:
  assumes "TrimSpace k = k" and "CHR ''='' \<notin> set k" and "\<not> HasPrefix k ''#''"
  shows "decodeExistingConfigLine (k @ CHR ''='' # w) =
           Some (k, if isQuoted (trimRightSpace w) then unquote (trimRightSpace w)
                    else trimRightSpace w)"
  using assms
  by (simp add: decodeExistingConfigLine_def TrimSpace_entry notInSpace_chars
      not_hash_prefix SplitN2_at)

lemma trailingSpace_NL: "trailingSpace (x @ [NL]) = Some [NL]"
  by (simp add: trailingSpace_def spaceRunes_def)

lemma trimRightSpace_NL: "trimRightSpace (x @ [NL]) = trimRightSpace x"
  by (subst trimRightSpace.simps) (simp add: trailingSpace_NL)

lemma trimRightSpace_DQ: "trimRightSpace (x @ [DQ]) = x @ [DQ]"
  using trimRightSpace_append [of DQ x "[]"]
  by (simp add: notInSpace_chars trimRightSpace_None trailingSpace_def spaceRunes_def)

lemma unquote_empty: "unquote [DQ, DQ] = []"
  by (simp add: unquote_def)

lemma outputValue_plain:
  "\<not> ContainsAny v quoteChars \<Longrightarrow> outputValue v = (if v = [] then [DQ, DQ] else v)"
  by (simp add: outputValue_def needsQuoting_def)

lemma plain_not_quoted:
  assumes "\<not> ContainsAny v quoteChars" and "v \<noteq> []"
  shows "\<not> isQuoted v"
proof
  assume "isQuoted v"
  then have "v ! 0 = DQ" by (simp add: isQuoted_def)
  with assms(2) have "DQ \<in> set v" by (cases v) auto
  with assms(1) show False
    by (auto simp: ContainsAny_def list_ex_iff quoteChars_def)
qed

lemma trimRightSpace_Nil: "trimRightSpace [] = []"
  by code_simp

lemma TrimSpace_Nil: "TrimSpace [] = []"
  by code_simp

lemma trimRightSpace_blanks: "trimRightSpace (replicate n (CHR '' '')) = []"
proof (induction n)
  case 0
  show ?case by (simp add: trimRightSpace_Nil)
next
  case (Suc n)
  have "trailingSpace (replicate n (CHR '' '') @ [CHR '' '']) = Some [CHR '' '']"
    by (simp add: trailingSpace_def spaceRunes_def)
  then have "trimRightSpace (replicate n (CHR '' '') @ [CHR '' ''])
      = trimRightSpace (replicate n (CHR '' ''))"
    by (subst trimRightSpace.simps) simp
  with Suc show ?case
    by (simp add: replicate_append_same)
qed

lemma decodeTemplateLine_keyvalue:
  assumes "TrimSpace k = k" and "k \<noteq> []" and "CHR ''='' \<notin> set k" and "CHR ''#'' \<notin> set k"
    and "CHR ''#'' \<notin> set (trimRightSpace w)"
  shows "decodeTemplateLine (k @ CHR ''='' # w) =
     Some \<lparr>Key = k, Description = [],
           ExampleValue = (let valStr = TrimSpace (trimRightSpace w) in
               if isQuoted valStr then unquote valStr else valStr)\<rparr>"
proof -
  have t: "TrimSpace (k @ CHR ''='' # w) = k @ CHR ''='' # trimRightSpace w"
    using assms(1) by (simp add: TrimSpace_entry notInSpace_chars)
  have h: "\<not> HasPrefix (k @ CHR ''='' # trimRightSpace w) ''#''"
    using assms(2,4) by (cases k) (auto simp: HasPrefix_def)
  have i: "Index (k @ CHR ''='' # trimRightSpace w) (CHR ''#'') = None"
    using assms(4,5) by (simp add: Index_def)
  have s: "SplitN2 (k @ CHR ''='' # trimRightSpace w) (CHR ''='') = [k, trimRightSpace w]"
    using assms(3) by (rule SplitN2_at)
  show ?thesis
    using assms(1,2)
    by (simp add: decodeTemplateLine_def t h i s Let_def isQuoted_def)
qed

lemma ReplaceAll_single:
  "ReplaceAll s [c] new = concat (map (\<lambda>x. if x = c then new else [x]) s)"
  by (induction s) auto

lemma escape_chain:
  "ReplaceAll (ReplaceAll (ReplaceAll (ReplaceAll v [BSL] [BSL, BSL]) [DQ] [BSL, DQ])
       [NL] [BSL, CHR ''n'']) [CR] [BSL, CHR ''r'']
   = concat (map (\<lambda>c. if c = BSL then [BSL, BSL] else if c = DQ then [BSL, DQ]
                       else if c = NL then [BSL, CHR ''n'']
                       else if c = CR then [BSL, CHR ''r''] else [c]) v)"
  by (induction v) (simp_all add: ReplaceAll_single)

lemma ReplaceAll_absent: "c \<notin> set s \<Longrightarrow> ReplaceAll s [c] new = s"
  by (induction s) auto

lemma unescape_backslashes:
  "ReplaceAll (concat (map (\<lambda>c. if c = BSL then [BSL, BSL] else if c = DQ then [BSL, DQ] else [c]) v))
      [BSL, BSL] [BSL]
   = concat (map (\<lambda>c. if c = DQ then [BSL, DQ] else [c]) v)"
  by (induction v) simp_all

lemma escaped_no_quote_first:
  "\<not> prefix [DQ] (concat (map (\<lambda>c. if c = DQ then [BSL, DQ] else [c]) v))"
  by (cases v) auto

lemma unescape_quotes:
  "ReplaceAll (concat (map (\<lambda>c. if c = DQ then [BSL, DQ] else [c]) v)) [BSL, DQ] [DQ] = v"
proof (induction v)
  case Nil
  show ?case by simp
next
  case (Cons c v)
  show ?case
    using Cons.IH escaped_no_quote_first [of v]
    by (cases "c = DQ") (auto simp: prefix_Cons)
qed

lemma escape_without_newline:
  assumes "NL \<notin> set v" and "CR \<notin> set v"
  shows "ReplaceAll (ReplaceAll (ReplaceAll (ReplaceAll v [BSL] [BSL, BSL]) [DQ] [BSL, DQ])
       [NL] [BSL, CHR ''n'']) [CR] [BSL, CHR ''r'']
   = concat (map (\<lambda>c. if c = BSL then [BSL, BSL] else if c = DQ then [BSL, DQ] else [c]) v)"
proof -
  have "(\<lambda>c. if c = BSL then [BSL, BSL] else if c = DQ then [BSL, DQ]
                       else if c = NL then [BSL, CHR ''n'']
                       else if c = CR then [BSL, CHR ''r''] else [c]) x
      = (\<lambda>c. if c = BSL then [BSL, BSL] else if c = DQ then [BSL, DQ] else [c]) x"
    if "x \<in> set v" for x
    using that assms by auto
  then show ?thesis
    unfolding escape_chain by (intro arg_cong [where f=concat] map_cong) auto
qed

lemma unquote_outputValue:
  assumes "needsQuoting v" and "NL \<notin> set v" and "CR \<notin> set v"
  shows "isQuoted (outputValue v)" and "unquote (outputValue v) = v"
    and "trimRightSpace (outputValue v) = outputValue v"
proof -
  let ?e = "concat (map (\<lambda>c. if c = BSL then [BSL, BSL] else if c = DQ then [BSL, DQ] else [c]) v)"
  have o: "outputValue v = DQ # ?e @ [DQ]"
    using assms by (simp add: outputValue_def escape_without_newline)
  show "isQuoted (outputValue v)"
    unfolding o by (simp add: isQuoted_def nth_append)
  show "unquote (outputValue v) = v"
    unfolding o by (simp add: unquote_def unescape_backslashes unescape_quotes)
  show "trimRightSpace (outputValue v) = outputValue v"
    unfolding o using trimRightSpace_DQ [of "DQ # ?e"] by simp
qed

lemma roundtrip_without_newline:
  assumes "NL \<notin> set v" and "CR \<notin> set v"
    and "needsQuoting v \<or> trimRightSpace v = v"
    and "TrimSpace k = k" and "CHR ''='' \<notin> set k" and "\<not> HasPrefix k ''#''"
  shows "decodeExistingConfigLine (encodeEntry k v) = Some (k, v)"
proof (cases "needsQuoting v")
  case True
  from unquote_outputValue [OF True assms(1,2)] assms(4-6) show ?thesis
    by (simp add: encodeEntry_def decode_entry trimRightSpace_NL)
next
  case False
  then have "\<not> ContainsAny v quoteChars" and "v \<noteq> []"
    by (auto simp: needsQuoting_def split: if_splits)
  with assms(3-6) False plain_not_quoted [of v] show ?thesis
    by (simp add: encodeEntry_def decode_entry outputValue_plain trimRightSpace_NL)
qed

section \<open>The codec: quoting and round trips\<close>






lemma decodeTemplateLine_empty_value:
  assumes "TrimSpace k = k" and "k \<noteq> []" and "CHR ''='' \<notin> set k" and "CHR ''#'' \<notin> set k"
  shows "decodeTemplateLine (k @ ''='' @ replicate n (CHR '' ''))
           = Some \<lparr>Key = k, Description = [], ExampleValue = []\<rparr>
       \<and> decodeTemplateLine (k @ ''='' @ [DQ, DQ])
           = Some \<lparr>Key = k, Description = [], ExampleValue = []\<rparr>"
proof -
  have q: "trimRightSpace [DQ, DQ] = [DQ, DQ]" "TrimSpace [DQ, DQ] = [DQ, DQ]"
    by code_simp+
  have "decodeTemplateLine (k @ CHR ''='' # replicate n (CHR '' ''))
           = Some \<lparr>Key = k, Description = [], ExampleValue = []\<rparr>"
    using assms
    by (simp add: decodeTemplateLine_keyvalue trimRightSpace_blanks TrimSpace_Nil isQuoted_def)
  moreover have "decodeTemplateLine (k @ CHR ''='' # [DQ, DQ])
           = Some \<lparr>Key = k, Description = [], ExampleValue = []\<rparr>"
    using assms
    by (simp add: decodeTemplateLine_keyvalue q isQuoted_def unquote_empty)
  ultimately show ?thesis by simp
qed

text \<open>
  Claim C8, as the specification states it: a template line whose value is empty
  and not quoted gives an absent default, which can be told from the explicit empty
  default of \<open>KEY=""\<close>. \<open>ExampleValue\<close> is a plain string in the code, and the two
  lines give the same \<open>EnvVar\<close>.
\<close>

theorem empty_default_counterexample:
  "decodeTemplateLine ''KEY='' = Some \<lparr>Key = ''KEY'', Description = [], ExampleValue = []\<rparr>
   \<and> decodeTemplateLine (''KEY='' @ [DQ, DQ]) = Some \<lparr>Key = ''KEY'', Description = [], ExampleValue = []\<rparr>"
  by code_simp

text \<open>
  Claim C8, amended: when a template line gives an \<open>EnvVar\<close> and its key-value part
  splits at \<open>=\<close> into a key part and a value part, a value part that is empty after
  trimming and the quoted empty value both give the empty string as default; the
  two cannot be told apart. (Lemma \<open>decodeTemplateLine_empty_value\<close> gives such lines
  for every key.)
\<close>

theorem empty_default:
  assumes "decodeTemplateLine line = Some envVar"
    and "keyValuePart =
           (case Index (TrimSpace line) (CHR ''#'') of
              None \<Rightarrow> TrimSpace line
            | Some commentIdx \<Rightarrow> TrimSpace (take commentIdx (TrimSpace line)))"
    and "SplitN2 keyValuePart (CHR ''='') = [keyPart, valuePart]"
    and "TrimSpace valuePart = [] \<or> TrimSpace valuePart = [DQ, DQ]"
  shows "ExampleValue envVar = []"
proof -
  from assms(1,2,3) have "ExampleValue envVar =
      (if isQuoted (TrimSpace valuePart) then unquote (TrimSpace valuePart)
       else TrimSpace valuePart)"
    by (auto simp: decodeTemplateLine_def Let_def split: if_splits option.splits)
  with assms(4) show ?thesis
    by (auto simp: isQuoted_def unquote_empty)
qed

theorem empty_default_witness:
  "decodeTemplateLine ''PORT=  # the port''
      = Some \<lparr>Key = ''PORT'', Description = ''the port'', ExampleValue = []\<rparr>
   \<and> SplitN2 (case Index (TrimSpace ''PORT=  # the port'') (CHR ''#'') of
                None \<Rightarrow> TrimSpace ''PORT=  # the port''
              | Some commentIdx \<Rightarrow> TrimSpace (take commentIdx (TrimSpace ''PORT=  # the port'')))
        (CHR ''='') = [''PORT'', []]
   \<and> decodeTemplateLine (''PORT='' @ [DQ, DQ])
      = Some \<lparr>Key = ''PORT'', Description = [], ExampleValue = []\<rparr>
   \<and> SplitN2 (case Index (TrimSpace (''PORT='' @ [DQ, DQ])) (CHR ''#'') of
                None \<Rightarrow> TrimSpace (''PORT='' @ [DQ, DQ])
              | Some commentIdx \<Rightarrow> TrimSpace (take commentIdx (TrimSpace (''PORT='' @ [DQ, DQ]))))
        (CHR ''='') = [''PORT'', [DQ, DQ]]"
proof -
  have a: "decodeTemplateLine ''PORT=  # the port''
      = Some \<lparr>Key = ''PORT'', Description = ''the port'', ExampleValue = []\<rparr>"
    by code_simp
  have b: "SplitN2 (case Index (TrimSpace ''PORT=  # the port'') (CHR ''#'') of
                None \<Rightarrow> TrimSpace ''PORT=  # the port''
              | Some commentIdx \<Rightarrow> TrimSpace (take commentIdx (TrimSpace ''PORT=  # the port'')))
        (CHR ''='') = [''PORT'', []]"
    by code_simp
  have c: "TrimSpace [] = [] \<or> TrimSpace [] = [DQ, DQ]"
    by (simp add: TrimSpace_Nil)
  have a': "decodeTemplateLine (''PORT='' @ [DQ, DQ])
      = Some \<lparr>Key = ''PORT'', Description = [], ExampleValue = []\<rparr>"
    by code_simp
  have b': "SplitN2 (case Index (TrimSpace (''PORT='' @ [DQ, DQ])) (CHR ''#'') of
                None \<Rightarrow> TrimSpace (''PORT='' @ [DQ, DQ])
              | Some commentIdx \<Rightarrow> TrimSpace (take commentIdx (TrimSpace (''PORT='' @ [DQ, DQ]))))
        (CHR ''='') = [''PORT'', [DQ, DQ]]"
    by code_simp
  have c': "TrimSpace [DQ, DQ] = [] \<or> TrimSpace [DQ, DQ] = [DQ, DQ]"
    by code_simp
  from empty_default [OF a refl b c] empty_default [OF a' refl b' c'] a b a' b'
  show ?thesis by simp
qed


section \<open>The diff\<close>

lemma diffLoop_acc:
  "diffLoop old new ks (ds, ch) =
     (ds @ concat (map (\<lambda>key.
              let newValue = (case new key of None \<Rightarrow> [] | Some v \<Rightarrow> v) in
              case old key of
                None \<Rightarrow> [Added key newValue]
              | Some oldValue \<Rightarrow>
                  if newValue = oldValue then []
                  else if newValue = [] then [Cleared key oldValue]
                  else [Changed key oldValue newValue]) ks),
      ch \<or> concat (map (\<lambda>key.
              let newValue = (case new key of None \<Rightarrow> [] | Some v \<Rightarrow> v) in
              case old key of
                None \<Rightarrow> [Added key newValue]
              | Some oldValue \<Rightarrow>
                  if newValue = oldValue then []
                  else if newValue = [] then [Cleared key oldValue]
                  else [Changed key oldValue newValue]) ks) \<noteq> [])"
proof (induction ks arbitrary: ds ch)
  case Nil
  show ?case by simp
next
  case (Cons key ks)
  show ?case
    by (cases "old key") (auto simp: Cons.IH Let_def)
qed

lemma computeChanges_concat:
  "computeChanges old new ks =
     concat (map (\<lambda>key.
              let newValue = (case new key of None \<Rightarrow> [] | Some v \<Rightarrow> v) in
              case old key of
                None \<Rightarrow> [Added key newValue]
              | Some oldValue \<Rightarrow>
                  if newValue = oldValue then []
                  else if newValue = [] then [Cleared key oldValue]
                  else [Changed key oldValue newValue]) ks)"
  by (simp add: computeChanges_def diffLoop_acc)

lemma changed_iff: "snd (diffLoop old new ks ([], False)) \<longleftrightarrow> computeChanges old new ks \<noteq> []"
  by (simp add: computeChanges_def diffLoop_acc)

lemma computeChanges_Nil [simp]: "computeChanges old new [] = []"
  by (simp add: computeChanges_concat)

lemma computeChanges_Cons:
  "computeChanges old new (key # ks) =
     (let newValue = (case new key of None \<Rightarrow> [] | Some v \<Rightarrow> v) in
      case old key of
        None \<Rightarrow> [Added key newValue]
      | Some oldValue \<Rightarrow>
          if newValue = oldValue then []
          else if newValue = [] then [Cleared key oldValue]
          else [Changed key oldValue newValue]) @ computeChanges old new ks"
  by (simp add: computeChanges_concat)

text \<open>
  Claim C5: for each key in the order given, \<open>computeChanges\<close> emits
  \<open>Added\<close> with the new value when the key is absent from the old map (also when
  the new value is empty), \<open>Cleared\<close> with the old value when the key is present
  and the new value is empty and differs, \<open>Changed\<close> when the key is present and the
  new value is not empty and differs, and nothing when the two values are equal;
  the records come in the order of the keys, and the flag \<open>changed\<close> of the loop
  says whether there is a record.
\<close>

theorem computeChanges_cases:
  "computeChanges old new keyOrder =
     concat (map (\<lambda>key.
        let newValue = (case new key of None \<Rightarrow> [] | Some v \<Rightarrow> v) in
        if old key = None \<and> newValue \<noteq> [] then [Added key newValue]
        else if old key = None \<and> newValue = [] then [Added key []]
        else if newValue = [] \<and> newValue \<noteq> the (old key) then [Cleared key (the (old key))]
        else if newValue \<noteq> [] \<and> newValue \<noteq> the (old key)
          then [Changed key (the (old key)) newValue]
        else []) keyOrder)
   \<and> snd (diffLoop old new keyOrder ([], False)) = (computeChanges old new keyOrder \<noteq> [])"
proof -
  have "computeChanges old new keyOrder =
     concat (map (\<lambda>key.
        let newValue = (case new key of None \<Rightarrow> [] | Some v \<Rightarrow> v) in
        if old key = None \<and> newValue \<noteq> [] then [Added key newValue]
        else if old key = None \<and> newValue = [] then [Added key []]
        else if newValue = [] \<and> newValue \<noteq> the (old key) then [Cleared key (the (old key))]
        else if newValue \<noteq> [] \<and> newValue \<noteq> the (old key)
          then [Changed key (the (old key)) newValue]
        else []) keyOrder)"
  proof (induction keyOrder)
    case Nil
    show ?case by simp
  next
    case (Cons key ks)
    show ?case
      by (cases "old key") (auto simp: computeChanges_Cons Cons.IH Let_def)
  qed
  then show ?thesis
    using changed_iff [of old new keyOrder] by simp
qed

theorem computeChanges_cases_witness:
  "computeChanges [''K1'' \<mapsto> ''old_v1'', ''K2'' \<mapsto> ''old_v2'', ''K5'' \<mapsto> ''same'']
       [''K1'' \<mapsto> ''new_v1'', ''K2'' \<mapsto> [], ''K3'' \<mapsto> ''new_v3'', ''K4'' \<mapsto> [], ''K5'' \<mapsto> ''same'']
       [''K1'', ''K2'', ''K3'', ''K4'', ''K5'']
   = [Changed ''K1'' ''old_v1'' ''new_v1'', Cleared ''K2'' ''old_v2'',
      Added ''K3'' ''new_v3'', Added ''K4'' []]"
  using computeChanges_cases [of "[''K1'' \<mapsto> ''old_v1'', ''K2'' \<mapsto> ''old_v2'', ''K5'' \<mapsto> ''same'']"
       "[''K1'' \<mapsto> ''new_v1'', ''K2'' \<mapsto> [], ''K3'' \<mapsto> ''new_v3'', ''K4'' \<mapsto> [], ''K5'' \<mapsto> ''same'']"
       "[''K1'', ''K2'', ''K3'', ''K4'', ''K5'']"]
  by simp

text \<open>
  Claim C6, as the specification states it: \<open>computeChanges old old order\<close> is empty
  for every map and every order, also when the order has keys that are absent from
  the map. The third branch of the loop reports a key that is absent from the old
  map as added with the empty value (the comment in the source says the case is
  counted as a change on purpose).
\<close>

theorem computeChanges_same_counterexample:
  "computeChanges Map.empty Map.empty [''A''] = [Added ''A'' []]
   \<and> computeChanges [''B'' \<mapsto> ''1''] [''B'' \<mapsto> ''1''] [''A'', ''B''] = [Added ''A'' []]"
  by (simp add: computeChanges_Cons)

text \<open>
  Claim C6, amended: \<open>computeChanges old old order\<close> is empty exactly when every key
  of the order is present in the map.
\<close>

theorem computeChanges_same:
  "computeChanges old old order = [] \<longleftrightarrow> set order \<subseteq> dom old"
  by (induction order) (auto simp: computeChanges_Cons Let_def split: option.splits)

theorem computeChanges_same_witness:
  "set [''A'', ''B'', ''A''] \<subseteq> dom [''A'' \<mapsto> ''1'', ''B'' \<mapsto> [], ''C'' \<mapsto> ''x'']
   \<and> computeChanges [''A'' \<mapsto> ''1'', ''B'' \<mapsto> [], ''C'' \<mapsto> ''x'']
        [''A'' \<mapsto> ''1'', ''B'' \<mapsto> [], ''C'' \<mapsto> ''x''] [''A'', ''B'', ''A''] = []"
  using computeChanges_same [of "[''A'' \<mapsto> ''1'', ''B'' \<mapsto> [], ''C'' \<mapsto> ''x'']" "[''A'', ''B'', ''A'']"]
  by simp

section \<open>The workflow\<close>

lemma setValues_length [simp]: "length (setValues fs vs) = length fs"
  by (induction fs vs rule: setValues.induct) auto

lemma setValues_inputs: "OtherField \<notin> set fs \<Longrightarrow> OtherField \<notin> set (setValues fs vs)"
  by (induction fs vs rule: setValues.induct) auto

lemma collectValues_dom:
  "collectValues es fs acc = Ok c \<Longrightarrow> dom c = dom acc \<union> Key ` set es"
  by (induction es fs acc rule: collectValues.induct) auto

lemma collectValues_total:
  "length fs = length es \<Longrightarrow> OtherField \<notin> set fs \<Longrightarrow>
     (case collectValues es fs acc of Ok c \<Rightarrow> True | Err e \<Rightarrow> False | Panic \<Rightarrow> False)"
  by (induction es fs acc rule: collectValues.induct) simp_all

lemma collectValues_inputs:
  assumes "length fs = length es" and "OtherField \<notin> set fs"
  shows "\<exists>c. collectValues es fs acc = Ok c"
  using collectValues_total [OF assms, of acc]
  by (cases "collectValues es fs acc") simp_all

lemma recordKey_computeChanges:
  "recordKey ` set (computeChanges old new ks) \<subseteq> set ks"
  by (induction ks) (auto simp: computeChanges_Cons Let_def split: option.splits if_splits)

lemma existingLoop_dom:
  "dom (existingLoop ls acc) =
     dom acc \<union> {k. \<exists>l\<in>set ls. \<exists>v. decodeExistingConfigLine l = Some (k, v)}"
  by (induction ls arbitrary: acc) (auto split: option.splits)

lemma prepare_cases:
  assumes "prepareForConfirmation m = Ok m'"
  obtains collected where
    "collectValues (envVars m) (formFields m) Map.empty = Ok collected"
    and "computeChanges (existingEnvValues m) collected (map Key (envVars m)) = []
         \<Longrightarrow> m' = m\<lparr>diffSummary := ''No changes to apply to .env file.'', quitting := True\<rparr>"
    and "computeChanges (existingEnvValues m) collected (map Key (envVars m)) \<noteq> []
         \<Longrightarrow> m' = m\<lparr>envValuesToSave := collected,
              diffSummary := Join (map formatChange
                 (computeChanges (existingEnvValues m) collected (map Key (envVars m)))) [NL],
              confirmForm := Some StateNormal, confirming := True\<rparr>"
proof -
  from assms obtain collected where
    c: "collectValues (envVars m) (formFields m) Map.empty = Ok collected"
    by (auto simp: prepareForConfirmation_def split: res.splits)
  obtain ds ch where d: "diffLoop (existingEnvValues m) collected (map Key (envVars m)) ([], False) = (ds, ch)"
    by (cases "diffLoop (existingEnvValues m) collected (map Key (envVars m)) ([], False)")
  then have ds: "ds = computeChanges (existingEnvValues m) collected (map Key (envVars m))"
    and ch: "ch \<longleftrightarrow> ds \<noteq> []"
    using changed_iff [of "existingEnvValues m" collected "map Key (envVars m)"]
    by (simp_all add: computeChanges_def)
  show thesis
  proof (rule that [OF c])
    assume "computeChanges (existingEnvValues m) collected (map Key (envVars m)) = []"
    with assms c d ds ch
    show "m' = m\<lparr>diffSummary := ''No changes to apply to .env file.'', quitting := True\<rparr>"
      by (simp add: prepareForConfirmation_def)
  next
    assume "computeChanges (existingEnvValues m) collected (map Key (envVars m)) \<noteq> []"
    with assms c d ds ch
    show "m' = m\<lparr>envValuesToSave := collected,
              diffSummary := Join (map formatChange
                 (computeChanges (existingEnvValues m) collected (map Key (envVars m)))) [NL],
              confirmForm := Some StateNormal, confirming := True\<rparr>"
      by (simp add: prepareForConfirmation_def)
  qed
qed

lemma Update_terminal:
  "err m \<noteq> None \<or> quitting m \<Longrightarrow> Update m w msg rep = Some (m, w, Quit)"
  by (auto simp: Update_def)

lemma resize_fields:
  "confirming (case msg of WindowSizeMsg wd ht \<Rightarrow> m\<lparr>width := wd, height := ht\<rparr> | _ \<Rightarrow> m) = confirming m"
  "confirmForm (case msg of WindowSizeMsg wd ht \<Rightarrow> m\<lparr>width := wd, height := ht\<rparr> | _ \<Rightarrow> m) = confirmForm m"
  "form (case msg of WindowSizeMsg wd ht \<Rightarrow> m\<lparr>width := wd, height := ht\<rparr> | _ \<Rightarrow> m) = form m"
  "formFields (case msg of WindowSizeMsg wd ht \<Rightarrow> m\<lparr>width := wd, height := ht\<rparr> | _ \<Rightarrow> m) = formFields m"
  "envVars (case msg of WindowSizeMsg wd ht \<Rightarrow> m\<lparr>width := wd, height := ht\<rparr> | _ \<Rightarrow> m) = envVars m"
  "existingEnvValues (case msg of WindowSizeMsg wd ht \<Rightarrow> m\<lparr>width := wd, height := ht\<rparr> | _ \<Rightarrow> m) = existingEnvValues m"
  "envValuesToSave (case msg of WindowSizeMsg wd ht \<Rightarrow> m\<lparr>width := wd, height := ht\<rparr> | _ \<Rightarrow> m) = envValuesToSave m"
  "err (case msg of WindowSizeMsg wd ht \<Rightarrow> m\<lparr>width := wd, height := ht\<rparr> | _ \<Rightarrow> m) = err m"
  "quitting (case msg of WindowSizeMsg wd ht \<Rightarrow> m\<lparr>width := wd, height := ht\<rparr> | _ \<Rightarrow> m) = quitting m"
  by (cases msg; simp)+

lemma Update_confirming:
  assumes "err m = None" and "\<not> quitting m" and "msg \<noteq> KeyMsg ''ctrl+c''"
    and "confirming m" and "confirmForm m \<noteq> None"
  shows "\<exists>r. envVars r = envVars m \<and> existingEnvValues r = existingEnvValues m
       \<and> envValuesToSave r = envValuesToSave m \<and> err r = None \<and> \<not> quitting r
       \<and> confirming r \<and> form r = form m \<and> formFields r = formFields m
       \<and> confirmForm r = Some (formStateAfter rep) \<and> applyChanges r = confirmValue rep
       \<and> Update m w msg rep =
          (if formStateAfter rep = StateCompleted then
             (if confirmValue rep then
                (case actuallyWriteEnvFile (ioFaults rep) w (envValuesToSave m) (rangeOrder rep) of
                   (w', e) \<Rightarrow> Some (r\<lparr>err := e, quitting := True\<rparr>, w', Quit))
              else Some (r\<lparr>quitting := True\<rparr>, w, Quit))
           else if formStateAfter rep = StateAborted then Some (r\<lparr>quitting := True\<rparr>, w, Quit)
           else Some (r, w, Continue))"
proof -
  let ?m1 = "case msg of WindowSizeMsg wd ht \<Rightarrow> m\<lparr>width := wd, height := ht\<rparr> | _ \<Rightarrow> m"
  let ?r = "?m1\<lparr>confirmForm := Some (formStateAfter rep), applyChanges := confirmValue rep\<rparr>"
  from assms(5) obtain cf where cf: "confirmForm m = Some cf" by auto
  have "Update m w msg rep =
          (if formStateAfter rep = StateCompleted then
             (if confirmValue rep then
                (case actuallyWriteEnvFile (ioFaults rep) w (envValuesToSave m) (rangeOrder rep) of
                   (w', e) \<Rightarrow> Some (?r\<lparr>err := e, quitting := True\<rparr>, w', Quit))
              else Some (?r\<lparr>quitting := True\<rparr>, w, Quit))
           else if formStateAfter rep = StateAborted then Some (?r\<lparr>quitting := True\<rparr>, w, Quit)
           else Some (?r, w, Continue))"
    using assms(1-4) cf
    by (simp add: Update_def Let_def resize_fields)
  then show ?thesis
    using assms(1,2,4)
    by (intro exI [of _ ?r]) (simp add: resize_fields)
qed

lemma Update_collecting:
  assumes "err m = None" and "\<not> quitting m" and "msg \<noteq> KeyMsg ''ctrl+c''"
    and "\<not> confirming m" and "form m \<noteq> None"
  shows "\<exists>r. envVars r = envVars m \<and> existingEnvValues r = existingEnvValues m
       \<and> envValuesToSave r = envValuesToSave m \<and> err r = None \<and> \<not> quitting r
       \<and> \<not> confirming r \<and> form r = Some (formStateAfter rep)
       \<and> formFields r = setValues (formFields m) (inputValues rep)
       \<and> confirmForm r = confirmForm m
       \<and> Update m w msg rep =
          (if formStateAfter rep = StateCompleted then
             (case prepareForConfirmation r of
                Panic \<Rightarrow> None
              | Err e \<Rightarrow> Some (r\<lparr>err := Some e, quitting := True\<rparr>, w, Quit)
              | Ok m' \<Rightarrow> if quitting m' then Some (m', w, Quit) else Some (m', w, Continue))
           else if formStateAfter rep = StateAborted then Some (r\<lparr>quitting := True\<rparr>, w, Quit)
           else Some (r, w, Continue))"
proof -
  let ?m1 = "case msg of WindowSizeMsg wd ht \<Rightarrow> m\<lparr>width := wd, height := ht\<rparr> | _ \<Rightarrow> m"
  let ?r = "?m1\<lparr>form := Some (formStateAfter rep),
                formFields := setValues (formFields ?m1) (inputValues rep)\<rparr>"
  from assms(5) obtain f where f: "form m = Some f" by auto
  have "Update m w msg rep =
          (if formStateAfter rep = StateCompleted then
             (case prepareForConfirmation ?r of
                Panic \<Rightarrow> None
              | Err e \<Rightarrow> Some (?r\<lparr>err := Some e, quitting := True\<rparr>, w, Quit)
              | Ok m' \<Rightarrow> if quitting m' then Some (m', w, Quit) else Some (m', w, Continue))
           else if formStateAfter rep = StateAborted then Some (?r\<lparr>quitting := True\<rparr>, w, Quit)
           else Some (?r, w, Continue))"
    using assms(1-4) f
    by (simp add: Update_def Let_def resize_fields cong: res.case_cong)
  then show ?thesis
    using assms(1,2,4)
    by (intro exI [of _ ?r]) (simp add: resize_fields)
qed

lemma Update_ctrl_c:
  assumes "err m = None" and "\<not> quitting m"
  shows "Update m w (KeyMsg ''ctrl+c'') rep = Some (m\<lparr>quitting := True\<rparr>, w, Quit)"
  using assms by (simp add: Update_def)

lemma prepare_total:
  "collectValues (envVars m) (formFields m) Map.empty = Ok collected
     \<Longrightarrow> \<exists>m'. prepareForConfirmation m = Ok m'"
  by (auto simp: prepareForConfirmation_def split: prod.splits)

lemma ready_step:
  assumes "ready m"
  shows "\<exists>m' w' c. Update m w msg rep = Some (m', w', c) \<and> ready m'
           \<and> envVars m' = envVars m \<and> existingEnvValues m' = existingEnvValues m
           \<and> (w' = w \<or> quitting m')"
proof -
  consider (terminal) "err m \<noteq> None \<or> quitting m"
    | (cancel) "err m = None" "\<not> quitting m" "msg = KeyMsg ''ctrl+c''"
    | (confirm) "err m = None" "\<not> quitting m" "msg \<noteq> KeyMsg ''ctrl+c''" "confirming m"
    | (collect) "err m = None" "\<not> quitting m" "msg \<noteq> KeyMsg ''ctrl+c''" "\<not> confirming m"
    by blast
  then show ?thesis
  proof cases
    case terminal
    then show ?thesis using assms by (simp add: Update_terminal)
  next
    case cancel
    then show ?thesis using assms by (simp add: Update_ctrl_c ready_def)
  next
    case confirm
    with assms have cf: "confirmForm m \<noteq> None" and rd: "form m \<noteq> None"
      "length (formFields m) = length (envVars m)" "OtherField \<notin> set (formFields m)"
      "dom (envValuesToSave m) = Key ` set (envVars m)"
      "computeChanges (existingEnvValues m) (envValuesToSave m) (map Key (envVars m)) \<noteq> []"
      by (auto simp: ready_def)
    from Update_confirming [OF confirm cf, where w=w and rep=rep] obtain r where
      r: "envVars r = envVars m" "existingEnvValues r = existingEnvValues m"
         "envValuesToSave r = envValuesToSave m" "err r = None" "\<not> quitting r"
         "confirming r" "form r = form m" "formFields r = formFields m"
         "confirmForm r = Some (formStateAfter rep)"
      and u: "Update m w msg rep =
          (if formStateAfter rep = StateCompleted then
             (if confirmValue rep then
                (case actuallyWriteEnvFile (ioFaults rep) w (envValuesToSave m) (rangeOrder rep) of
                   (w', e) \<Rightarrow> Some (r\<lparr>err := e, quitting := True\<rparr>, w', Quit))
              else Some (r\<lparr>quitting := True\<rparr>, w, Quit))
           else if formStateAfter rep = StateAborted then Some (r\<lparr>quitting := True\<rparr>, w, Quit)
           else Some (r, w, Continue))"
      by blast
    have rr: "ready r"
      using r rd by (simp add: ready_def)
    show ?thesis
      unfolding u using r rr
      by (cases "actuallyWriteEnvFile (ioFaults rep) w (envValuesToSave m) (rangeOrder rep)")
         (simp add: ready_def)
  next
    case collect
    with assms have rd: "form m \<noteq> None"
      "length (formFields m) = length (envVars m)" "OtherField \<notin> set (formFields m)"
      by (auto simp: ready_def)
    from Update_collecting [OF collect rd(1), where w=w and rep=rep] obtain r where
      r: "envVars r = envVars m" "existingEnvValues r = existingEnvValues m"
         "envValuesToSave r = envValuesToSave m" "err r = None" "\<not> quitting r"
         "\<not> confirming r" "form r = Some (formStateAfter rep)"
         "formFields r = setValues (formFields m) (inputValues rep)"
      and u: "Update m w msg rep =
          (if formStateAfter rep = StateCompleted then
             (case prepareForConfirmation r of
                Panic \<Rightarrow> None
              | Err e \<Rightarrow> Some (r\<lparr>err := Some e, quitting := True\<rparr>, w, Quit)
              | Ok m' \<Rightarrow> if quitting m' then Some (m', w, Quit) else Some (m', w, Continue))
           else if formStateAfter rep = StateAborted then Some (r\<lparr>quitting := True\<rparr>, w, Quit)
           else Some (r, w, Continue))"
      by blast
    have rr: "ready r"
      using r rd by (simp add: ready_def setValues_inputs)
    show ?thesis
    proof (cases "formStateAfter rep = StateCompleted")
      case False
      then show ?thesis
        unfolding u using r rr by (simp add: ready_def)
    next
      case True
      obtain collected where c: "collectValues (envVars r) (formFields r) Map.empty = Ok collected"
        using collectValues_inputs [of "formFields r" "envVars r" Map.empty] r rd
        by (auto simp: setValues_inputs)
      then obtain m' where p: "prepareForConfirmation r = Ok m'"
        using prepare_total by blast
      have d: "dom collected = Key ` set (envVars r)"
        using collectValues_dom [OF c] by simp
      have "ready m' \<and> envVars m' = envVars m \<and> existingEnvValues m' = existingEnvValues m"
      proof (rule prepare_cases [OF p])
        fix collected'
        assume c': "collectValues (envVars r) (formFields r) Map.empty = Ok collected'"
          and e: "computeChanges (existingEnvValues r) collected' (map Key (envVars r)) = []
            \<Longrightarrow> m' = r\<lparr>diffSummary := ''No changes to apply to .env file.'', quitting := True\<rparr>"
          and n: "computeChanges (existingEnvValues r) collected' (map Key (envVars r)) \<noteq> []
            \<Longrightarrow> m' = r\<lparr>envValuesToSave := collected',
              diffSummary := Join (map formatChange
                 (computeChanges (existingEnvValues r) collected' (map Key (envVars r)))) [NL],
              confirmForm := Some StateNormal, confirming := True\<rparr>"
        from c c' have [simp]: "collected' = collected" by simp
        show ?thesis
        proof (cases "computeChanges (existingEnvValues r) collected (map Key (envVars r)) = []")
          case True
          with e r show ?thesis by (simp add: ready_def)
        next
          case False
          with n r d rr show ?thesis by (simp add: ready_def)
        qed
      qed
      then show ?thesis
        unfolding u using True p by simp
    qed
  qed
qed

lemma run_terminal:
  "err m \<noteq> None \<or> quitting m \<Longrightarrow> run (m, w) evs = Some (m, w)"
  by (induction evs) (auto simp: Update_terminal)

lemma run_ready:
  assumes "ready m"
  shows "\<exists>m' w'. run (m, w) evs = Some (m', w') \<and> ready m'
           \<and> envVars m' = envVars m \<and> existingEnvValues m' = existingEnvValues m
           \<and> (w' = w \<or> quitting m')"
  using assms
proof (induction evs arbitrary: m w)
  case Nil
  then show ?case by simp
next
  case (Cons ev evs)
  obtain msg rep where ev: "ev = (msg, rep)" by (cases ev)
  from ready_step [OF Cons.prems, of w msg rep] obtain m1 w1 c where
    s: "Update m w msg rep = Some (m1, w1, c)" "ready m1" "envVars m1 = envVars m"
       "existingEnvValues m1 = existingEnvValues m" "w1 = w \<or> quitting m1"
    by blast
  show ?case
  proof (cases "quitting m1")
    case True
    then show ?thesis
      using s ev by (simp add: run_terminal)
  next
    case False
    with s have "w1 = w" by simp
    with Cons.IH [OF s(2), of w1] s ev show ?thesis by auto
  qed
qed

lemma Init_ready: "ready (fst (Init initialModel w flt))"
  by (auto simp: Init_def ready_def initialModel_def Let_def split: sum.splits prod.splits option.splits)

lemma sc_scan:
  "scanLines (''A=1'' @ [NL] @ ''B=2 # desc'' @ [NL] @ ''C'') = ([''A=1'', ''B=2 # desc'', ''C''], False)"
  "scanLines (''A=old'' @ [NL] @ ''B='' @ [NL] @ ''X=1'') = ([''A=old'', ''B='', ''X=1''], False)"
  by (simp_all add: scanLines.simps maxScanTokenSize_def dropCR_def)

lemma sc_template:
  "decodeTemplateLine ''A=1'' = Some \<lparr>Key = ''A'', Description = [], ExampleValue = ''1''\<rparr>"
  "decodeTemplateLine ''B=2 # desc'' = Some \<lparr>Key = ''B'', Description = ''desc'', ExampleValue = ''2''\<rparr>"
  "decodeTemplateLine ''C'' = Some \<lparr>Key = ''C'', Description = [], ExampleValue = []\<rparr>"
  by code_simp+

lemma sc_existing:
  "decodeExistingConfigLine ''A=old'' = Some (''A'', ''old'')"
  "decodeExistingConfigLine ''B='' = Some (''B'', [])"
  "decodeExistingConfigLine ''X=1'' = Some (''X'', ''1'')"
  by code_simp+

lemma sc_entries:
  "encodeEntry ''C'' [] = ''C='' @ [DQ, DQ, NL]"
  "encodeEntry ''A'' ''new value'' = ''A='' @ [DQ] @ ''new value'' @ [DQ, NL]"
  "encodeEntry ''B'' ''2'' = ''B=2'' @ [NL]"
  by code_simp+

lemma sc_init:
  "Init initialModel scenarioWorld noFaults =
    (initialModel\<lparr>envVars := [\<lparr>Key = ''A'', Description = [], ExampleValue = ''1''\<rparr>,
         \<lparr>Key = ''B'', Description = ''desc'', ExampleValue = ''2''\<rparr>,
         \<lparr>Key = ''C'', Description = [], ExampleValue = []\<rparr>],
       existingEnvValues := [''A'' \<mapsto> ''old'', ''B'' \<mapsto> [], ''X'' \<mapsto> ''1''],
       formFields := [Input ''old'', Input ''2'', Input []],
       form := Some StateNormal\<rparr>, Continue)"
  using sc_scan
  by (simp add: Init_def readEnvVarsFromFile_def readExistingEnvFile_def openAndScan_def
      scenarioWorld_def noFaults_def sc_template sc_existing initialValueOf_def)

lemma sc_run1:
  "run (fst (Init initialModel scenarioWorld noFaults), scenarioWorld) [(OtherMsg, scenarioReply)]
   = Some (initialModel\<lparr>envVars := [\<lparr>Key = ''A'', Description = [], ExampleValue = ''1''\<rparr>,
         \<lparr>Key = ''B'', Description = ''desc'', ExampleValue = ''2''\<rparr>,
         \<lparr>Key = ''C'', Description = [], ExampleValue = []\<rparr>],
       existingEnvValues := [''A'' \<mapsto> ''old'', ''B'' \<mapsto> [], ''X'' \<mapsto> ''1''],
       formFields := [Input ''new value'', Input ''2'', Input []],
       form := Some StateCompleted,
       envValuesToSave := [''A'' \<mapsto> ''new value'', ''B'' \<mapsto> ''2'', ''C'' \<mapsto> []],
       diffSummary := Join (map formatChange [Changed ''A'' ''old'' ''new value'',
          Changed ''B'' [] ''2'', Added ''C'' []]) [NL],
       confirmForm := Some StateNormal,
       confirming := True\<rparr>, scenarioWorld)"
  unfolding sc_init fst_conv
  by (simp add: Update_def prepareForConfirmation_def scenarioReply_def initialModel_def)

lemma step_clauses:
  assumes "ready m" and q: "w = w0 \<or> quitting m"
  shows "\<exists>m' w' c. Update m w msg rep = Some (m', w', c)
     \<and> (w' \<noteq> w \<longrightarrow>
          w = w0 \<and> confirming m
          \<and> computeChanges (existingEnvValues m) (envValuesToSave m) (map Key (envVars m)) \<noteq> []
          \<and> msg \<noteq> KeyMsg ''ctrl+c'' \<and> formStateAfter rep = StateCompleted \<and> confirmValue rep
          \<and> quitting m' \<and> c = Quit)
     \<and> (\<forall>collected. err m = None \<and> \<not> quitting m \<and> \<not> confirming m
            \<and> msg \<noteq> KeyMsg ''ctrl+c'' \<and> formStateAfter rep = StateCompleted
            \<and> collectValues (envVars m) (setValues (formFields m) (inputValues rep)) Map.empty
                 = Ok collected
            \<and> computeChanges (existingEnvValues m) collected (map Key (envVars m)) = []
          \<longrightarrow> w' = w \<and> quitting m' \<and> \<not> confirming m' \<and> err m' = None \<and> c = Quit)
     \<and> (msg = KeyMsg ''ctrl+c'' \<or> formStateAfter rep = StateAborted
          \<or> (confirming m \<and> formStateAfter rep = StateCompleted \<and> \<not> confirmValue rep)
          \<longrightarrow> w' = w \<and> c = Quit \<and> err m' = err m \<and> (err m = None \<longrightarrow> quitting m'))
     \<and> (quitting m \<or> err m \<noteq> None \<longrightarrow> m' = m \<and> w' = w \<and> c = Quit)"
proof -
  consider (terminal) "err m \<noteq> None \<or> quitting m"
    | (cancel) "err m = None" "\<not> quitting m" "msg = KeyMsg ''ctrl+c''"
    | (confirm) "err m = None" "\<not> quitting m" "msg \<noteq> KeyMsg ''ctrl+c''" "confirming m"
    | (collect) "err m = None" "\<not> quitting m" "msg \<noteq> KeyMsg ''ctrl+c''" "\<not> confirming m"
    by blast
  then show ?thesis
  proof cases
    case terminal
    then show ?thesis by (auto simp: Update_terminal)
  next
    case cancel
    then show ?thesis by (simp add: Update_ctrl_c)
  next
    case confirm
    with assms have cf: "confirmForm m \<noteq> None"
      and d: "computeChanges (existingEnvValues m) (envValuesToSave m) (map Key (envVars m)) \<noteq> []"
      by (auto simp: ready_def)
    from Update_confirming [OF confirm cf, where w=w and rep=rep] obtain r where
      r: "err r = None" "\<not> quitting r"
      and u: "Update m w msg rep =
          (if formStateAfter rep = StateCompleted then
             (if confirmValue rep then
                (case actuallyWriteEnvFile (ioFaults rep) w (envValuesToSave m) (rangeOrder rep) of
                   (w', e) \<Rightarrow> Some (r\<lparr>err := e, quitting := True\<rparr>, w', Quit))
              else Some (r\<lparr>quitting := True\<rparr>, w, Quit))
           else if formStateAfter rep = StateAborted then Some (r\<lparr>quitting := True\<rparr>, w, Quit)
           else Some (r, w, Continue))"
      by blast
    from q confirm have "w = w0" by simp
    then show ?thesis
      unfolding u using r confirm d
      by (cases "actuallyWriteEnvFile (ioFaults rep) w (envValuesToSave m) (rangeOrder rep)")
         simp
  next
    case collect
    with assms have rd: "form m \<noteq> None"
      by (auto simp: ready_def)
    from Update_collecting [OF collect rd, where w=w and rep=rep] obtain r where
      r: "envVars r = envVars m" "existingEnvValues r = existingEnvValues m"
         "err r = None" "\<not> quitting r" "\<not> confirming r"
         "formFields r = setValues (formFields m) (inputValues rep)"
      and u: "Update m w msg rep =
          (if formStateAfter rep = StateCompleted then
             (case prepareForConfirmation r of
                Panic \<Rightarrow> None
              | Err e \<Rightarrow> Some (r\<lparr>err := Some e, quitting := True\<rparr>, w, Quit)
              | Ok m' \<Rightarrow> if quitting m' then Some (m', w, Quit) else Some (m', w, Continue))
           else if formStateAfter rep = StateAborted then Some (r\<lparr>quitting := True\<rparr>, w, Quit)
           else Some (r, w, Continue))"
      by blast
    show ?thesis
    proof (cases "formStateAfter rep = StateCompleted")
      case False
      then show ?thesis
        unfolding u using r collect by simp
    next
      case True
      from assms collect have "length (formFields m) = length (envVars m)"
        and "OtherField \<notin> set (formFields m)"
        by (auto simp: ready_def)
      then obtain c0 where "collectValues (envVars r) (formFields r) Map.empty = Ok c0"
        using collectValues_inputs [of "formFields r" "envVars r" Map.empty] r
        by (auto simp: setValues_inputs)
      then obtain m' where p: "prepareForConfirmation r = Ok m'"
        using prepare_total by blast
      define w' where "w' = w"
      define c where "c = (if quitting m' then Quit else Continue)"
      have s: "Update m w msg rep = Some (m', w', c)"
        unfolding u using True p by (simp add: w'_def c_def)
      have w': "w' = w" by (simp add: w'_def)
      have c: "c = (if quitting m' then Quit else Continue)" by (simp add: c_def)
      have "\<And>collected. collectValues (envVars m) (setValues (formFields m) (inputValues rep)) Map.empty
                 = Ok collected \<Longrightarrow>
            computeChanges (existingEnvValues m) collected (map Key (envVars m)) = [] \<Longrightarrow>
            quitting m' \<and> \<not> confirming m' \<and> err m' = None"
      proof -
        fix collected
        assume c1: "collectValues (envVars m) (setValues (formFields m) (inputValues rep)) Map.empty
                 = Ok collected"
          and e1: "computeChanges (existingEnvValues m) collected (map Key (envVars m)) = []"
        show "quitting m' \<and> \<not> confirming m' \<and> err m' = None"
        proof (rule prepare_cases [OF p])
          fix collected'
          assume c': "collectValues (envVars r) (formFields r) Map.empty = Ok collected'"
            and e: "computeChanges (existingEnvValues r) collected' (map Key (envVars r)) = []
              \<Longrightarrow> m' = r\<lparr>diffSummary := ''No changes to apply to .env file.'', quitting := True\<rparr>"
          from c1 c' r have "collected' = collected" by simp
          with e e1 r show ?thesis by simp
        qed
      qed
      with s w' c collect True show ?thesis by auto
    qed
  qed
qed







lemma sc_write:
  "\<exists>w'. actuallyWriteEnvFile noFaults scenarioWorld
          [''A'' \<mapsto> ''new value'', ''B'' \<mapsto> ''2'', ''C'' \<mapsto> []] [''C'', ''A'', ''B''] = (w', None)
      \<and> files w' ''.env'' =
          Some (RegularFile (''C='' @ [DQ, DQ, NL] @ ''A='' @ [DQ] @ ''new value'' @ [DQ, NL]
                  @ ''B=2'' @ [NL]))
      \<and> files w' ''.env.old'' = Some (RegularFile (''A=old'' @ [NL] @ ''B='' @ [NL] @ ''X=1''))"
  by (simp add: actuallyWriteEnvFile_def backupEnvFile_def writeEnvFile_def scenarioWorld_def
      noFaults_def sc_entries Let_def)

lemma sc_commit:
  assumes "err m = None" and "\<not> quitting m" and "confirming m" and "confirmForm m \<noteq> None"
    and "envValuesToSave m = [''A'' \<mapsto> ''new value'', ''B'' \<mapsto> ''2'', ''C'' \<mapsto> []]"
  shows "\<exists>m' w'. Update m scenarioWorld OtherMsg scenarioReply = Some (m', w', Quit)
      \<and> err m' = None
      \<and> files w' ''.env'' =
          Some (RegularFile (''C='' @ [DQ, DQ, NL] @ ''A='' @ [DQ] @ ''new value'' @ [DQ, NL]
                  @ ''B=2'' @ [NL]))
      \<and> files w' ''.env.old'' = Some (RegularFile (''A=old'' @ [NL] @ ''B='' @ [NL] @ ''X=1''))"
proof -
  have n: "OtherMsg \<noteq> KeyMsg ''ctrl+c''" by simp
  from Update_confirming [OF assms(1,2) n assms(3,4), where w=scenarioWorld and rep=scenarioReply]
  obtain r where
    u: "Update m scenarioWorld OtherMsg scenarioReply =
          (if formStateAfter scenarioReply = StateCompleted then
             (if confirmValue scenarioReply then
                (case actuallyWriteEnvFile (ioFaults scenarioReply) scenarioWorld (envValuesToSave m)
                        (rangeOrder scenarioReply) of
                   (w', e) \<Rightarrow> Some (r\<lparr>err := e, quitting := True\<rparr>, w', Quit))
              else Some (r\<lparr>quitting := True\<rparr>, scenarioWorld, Quit))
           else if formStateAfter scenarioReply = StateAborted
             then Some (r\<lparr>quitting := True\<rparr>, scenarioWorld, Quit)
           else Some (r, scenarioWorld, Continue))"
    by blast
  from sc_write obtain w' where
    w: "actuallyWriteEnvFile noFaults scenarioWorld
          [''A'' \<mapsto> ''new value'', ''B'' \<mapsto> ''2'', ''C'' \<mapsto> []] [''C'', ''A'', ''B''] = (w', None)"
    and f: "files w' ''.env'' =
          Some (RegularFile (''C='' @ [DQ, DQ, NL] @ ''A='' @ [DQ] @ ''new value'' @ [DQ, NL]
                  @ ''B=2'' @ [NL]))"
       "files w' ''.env.old'' = Some (RegularFile (''A=old'' @ [NL] @ ''B='' @ [NL] @ ''X=1''))"
    by blast
  have "Update m scenarioWorld OtherMsg scenarioReply = Some (r\<lparr>err := None, quitting := True\<rparr>, w', Quit)"
    unfolding u using w assms(5) by (simp add: scenarioReply_def)
  with f show ?thesis by simp
qed

lemma sc_state:
  assumes "run (fst (Init initialModel scenarioWorld noFaults), scenarioWorld)
             [(OtherMsg, scenarioReply)] = Some (m, w)"
  shows "w = scenarioWorld" and "err m = None" and "\<not> quitting m" and "confirming m"
    and "confirmForm m \<noteq> None"
    and "envValuesToSave m = [''A'' \<mapsto> ''new value'', ''B'' \<mapsto> ''2'', ''C'' \<mapsto> []]"
    and "existingEnvValues m = [''A'' \<mapsto> ''old'', ''B'' \<mapsto> [], ''X'' \<mapsto> ''1'']"
    and "map Key (envVars m) = [''A'', ''B'', ''C'']"
  using assms unfolding sc_run1 by (auto simp: initialModel_def)














lemma Init_existing:
  assumes "err (fst (Init initialModel w flt)) = None"
    and "openAndScan flt w ''.env'' = Opened (ls, False)"
  shows "existingEnvValues (fst (Init initialModel w flt)) = existingLoop ls Map.empty"
  using assms
  by (auto simp: Init_def initialModel_def readExistingEnvFile_def Let_def
      split: sum.splits if_splits)

text \<open>
  Claim C2: the files change only in the commit, and the commit needs a diff that
  is not empty and the answer yes. From the state after \<^verbatim>\<open>Init\<close>, every sequence
  of messages leads to a state (no call panics) whose files are the initial ones
  unless the program is already quitting. From such a state every call of
  \<^verbatim>\<open>Update\<close> returns, and
  \<^item> if it changes the files, then they were still the initial ones, the confirmation
    was pending with a diff that is not empty, the confirm form has completed with
    the answer yes, and the program quits;
  \<^item> if the main form completes and the diff of the collected values is empty, the
    files stay as they are and the program quits without an error and without asking
    for a confirmation;
  \<^item> on ctrl+c, on a form that reports an abort, and on the answer no, the files stay
    as they are and the program quits;
  \<^item> once the program is quitting or has failed, nothing changes any more.
\<close>

theorem files_change_only_on_confirmed_commit:
  "\<exists>m w. run (fst (Init initialModel w0 flt), w0) evs = Some (m, w)
     \<and> (w \<noteq> w0 \<longrightarrow> quitting m)
     \<and> (\<forall>msg rep. \<exists>m' w' c. Update m w msg rep = Some (m', w', c)
          \<and> (w' \<noteq> w \<longrightarrow>
               w = w0 \<and> confirming m
               \<and> computeChanges (existingEnvValues m) (envValuesToSave m) (map Key (envVars m)) \<noteq> []
               \<and> msg \<noteq> KeyMsg ''ctrl+c'' \<and> formStateAfter rep = StateCompleted
               \<and> confirmValue rep \<and> quitting m' \<and> c = Quit)
          \<and> (\<forall>collected. err m = None \<and> \<not> quitting m \<and> \<not> confirming m
                 \<and> msg \<noteq> KeyMsg ''ctrl+c'' \<and> formStateAfter rep = StateCompleted
                 \<and> collectValues (envVars m) (setValues (formFields m) (inputValues rep)) Map.empty
                      = Ok collected
                 \<and> computeChanges (existingEnvValues m) collected (map Key (envVars m)) = []
               \<longrightarrow> w' = w \<and> quitting m' \<and> \<not> confirming m' \<and> err m' = None \<and> c = Quit)
          \<and> (msg = KeyMsg ''ctrl+c'' \<or> formStateAfter rep = StateAborted
               \<or> (confirming m \<and> formStateAfter rep = StateCompleted \<and> \<not> confirmValue rep)
               \<longrightarrow> w' = w \<and> c = Quit \<and> err m' = err m \<and> (err m = None \<longrightarrow> quitting m'))
          \<and> (quitting m \<or> err m \<noteq> None \<longrightarrow> m' = m \<and> w' = w \<and> c = Quit))"
proof -
  from run_ready [OF Init_ready, of w0 flt w0 evs] obtain m w where
    r: "run (fst (Init initialModel w0 flt), w0) evs = Some (m, w)" "ready m"
    and q: "w = w0 \<or> quitting m"
    by blast
  have "\<forall>msg rep. \<exists>m' w' c. Update m w msg rep = Some (m', w', c)
          \<and> (w' \<noteq> w \<longrightarrow>
               w = w0 \<and> confirming m
               \<and> computeChanges (existingEnvValues m) (envValuesToSave m) (map Key (envVars m)) \<noteq> []
               \<and> msg \<noteq> KeyMsg ''ctrl+c'' \<and> formStateAfter rep = StateCompleted
               \<and> confirmValue rep \<and> quitting m' \<and> c = Quit)
          \<and> (\<forall>collected. err m = None \<and> \<not> quitting m \<and> \<not> confirming m
                 \<and> msg \<noteq> KeyMsg ''ctrl+c'' \<and> formStateAfter rep = StateCompleted
                 \<and> collectValues (envVars m) (setValues (formFields m) (inputValues rep)) Map.empty
                      = Ok collected
                 \<and> computeChanges (existingEnvValues m) collected (map Key (envVars m)) = []
               \<longrightarrow> w' = w \<and> quitting m' \<and> \<not> confirming m' \<and> err m' = None \<and> c = Quit)
          \<and> (msg = KeyMsg ''ctrl+c'' \<or> formStateAfter rep = StateAborted
               \<or> (confirming m \<and> formStateAfter rep = StateCompleted \<and> \<not> confirmValue rep)
               \<longrightarrow> w' = w \<and> c = Quit \<and> err m' = err m \<and> (err m = None \<longrightarrow> quitting m'))
          \<and> (quitting m \<or> err m \<noteq> None \<longrightarrow> m' = m \<and> w' = w \<and> c = Quit)"
    by (intro allI step_clauses [OF r(2) q])
  moreover from q have "w \<noteq> w0 \<longrightarrow> quitting m" by blast
  ultimately show ?thesis
    using r(1) by (intro exI [of _ m] exI [of _ w] conjI)
qed

theorem files_change_only_on_confirmed_commit_witness:
  "\<exists>m m' w' c.
     run (fst (Init initialModel scenarioWorld noFaults), scenarioWorld)
        [(OtherMsg, scenarioReply)] = Some (m, scenarioWorld)
     \<and> Update m scenarioWorld OtherMsg scenarioReply = Some (m', w', c)
     \<and> w' \<noteq> scenarioWorld \<and> confirming m
     \<and> computeChanges (existingEnvValues m) (envValuesToSave m) (map Key (envVars m)) \<noteq> []
     \<and> formStateAfter scenarioReply = StateCompleted \<and> confirmValue scenarioReply
     \<and> quitting m' \<and> c = Quit"
proof -
  from files_change_only_on_confirmed_commit
         [of scenarioWorld noFaults "[(OtherMsg, scenarioReply)]"]
  obtain m w where
    r: "run (fst (Init initialModel scenarioWorld noFaults), scenarioWorld)
          [(OtherMsg, scenarioReply)] = Some (m, w)"
    and a: "\<forall>msg rep. \<exists>m' w' c. Update m w msg rep = Some (m', w', c)
          \<and> (w' \<noteq> w \<longrightarrow>
               w = scenarioWorld \<and> confirming m
               \<and> computeChanges (existingEnvValues m) (envValuesToSave m) (map Key (envVars m)) \<noteq> []
               \<and> msg \<noteq> KeyMsg ''ctrl+c'' \<and> formStateAfter rep = StateCompleted
               \<and> confirmValue rep \<and> quitting m' \<and> c = Quit)
          \<and> (\<forall>collected. err m = None \<and> \<not> quitting m \<and> \<not> confirming m
                 \<and> msg \<noteq> KeyMsg ''ctrl+c'' \<and> formStateAfter rep = StateCompleted
                 \<and> collectValues (envVars m) (setValues (formFields m) (inputValues rep)) Map.empty
                      = Ok collected
                 \<and> computeChanges (existingEnvValues m) collected (map Key (envVars m)) = []
               \<longrightarrow> w' = w \<and> quitting m' \<and> \<not> confirming m' \<and> err m' = None \<and> c = Quit)
          \<and> (msg = KeyMsg ''ctrl+c'' \<or> formStateAfter rep = StateAborted
               \<or> (confirming m \<and> formStateAfter rep = StateCompleted \<and> \<not> confirmValue rep)
               \<longrightarrow> w' = w \<and> c = Quit \<and> err m' = err m \<and> (err m = None \<longrightarrow> quitting m'))
          \<and> (quitting m \<or> err m \<noteq> None \<longrightarrow> m' = m \<and> w' = w \<and> c = Quit)"
    by (elim exE conjE) (rule that)
  note s = sc_state [OF r]
  from a obtain m' w' c where
    u: "Update m w OtherMsg scenarioReply = Some (m', w', c)"
    and f: "w' \<noteq> w \<longrightarrow>
               w = scenarioWorld \<and> confirming m
               \<and> computeChanges (existingEnvValues m) (envValuesToSave m) (map Key (envVars m)) \<noteq> []
               \<and> OtherMsg \<noteq> KeyMsg ''ctrl+c'' \<and> formStateAfter scenarioReply = StateCompleted
               \<and> confirmValue scenarioReply \<and> quitting m' \<and> c = Quit"
    by (elim allE [of _ OtherMsg] allE [of _ scenarioReply] exE conjE) (rule that)
  from sc_commit [OF s(2-6)] u s(1) have "files w' ''.env.old'' \<noteq> files scenarioWorld ''.env.old''"
    by (auto simp: scenarioWorld_def)
  then have "w' \<noteq> w" using s(1) by auto
  with f r u s(1) show ?thesis by blast
qed

text \<open>
  Claim C1, as the specification states it: every map of keys to values the workflow
  handles, the prior configuration included, has template keys only, so that loading
  a target file with a key the template does not declare gives a map without that
  key. \<^verbatim>\<open>readExistingEnvFile\<close> never looks at the template: in the run below the
  target file sets \<open>X\<close>, the template does not declare it, and the prior
  configuration holds it.
\<close>

theorem prior_configuration_counterexample:
  "err (fst (Init initialModel scenarioWorld noFaults)) = None
   \<and> existingEnvValues (fst (Init initialModel scenarioWorld noFaults)) ''X'' = Some ''1''
   \<and> ''X'' \<notin> Key ` set (envVars (fst (Init initialModel scenarioWorld noFaults)))"
  unfolding sc_init fst_conv by (simp add: initialModel_def)

text \<open>
  Claim C1, amended: in every run the template and the prior configuration stay as
  \<^verbatim>\<open>Init\<close> has read them; the newly collected values that are put up for
  confirmation have exactly the template's keys, and every change record carries a
  template key; the prior configuration has exactly the keys that the lines of the
  target file assign, whether the template declares them or not.
\<close>

theorem collected_keys_are_template_keys:
  "\<exists>m w. run (fst (Init initialModel w0 flt), w0) evs = Some (m, w)
     \<and> envVars m = envVars (fst (Init initialModel w0 flt))
     \<and> existingEnvValues m = existingEnvValues (fst (Init initialModel w0 flt))
     \<and> (confirming m \<longrightarrow>
          dom (envValuesToSave m) = Key ` set (envVars m)
          \<and> recordKey ` set (computeChanges (existingEnvValues m) (envValuesToSave m)
                               (map Key (envVars m))) \<subseteq> Key ` set (envVars m))
     \<and> (\<forall>ls. err (fst (Init initialModel w0 flt)) = None
               \<and> openAndScan flt w0 ''.env'' = Opened (ls, False)
            \<longrightarrow> dom (existingEnvValues m) =
                  {k. \<exists>l\<in>set ls. \<exists>v. decodeExistingConfigLine l = Some (k, v)})"
proof -
  from run_ready [OF Init_ready, of w0 flt w0 evs] obtain m w where
    r: "run (fst (Init initialModel w0 flt), w0) evs = Some (m, w)" and rd: "ready m"
    and e: "envVars m = envVars (fst (Init initialModel w0 flt))"
    and x: "existingEnvValues m = existingEnvValues (fst (Init initialModel w0 flt))"
    by blast
  have k: "recordKey ` set (computeChanges (existingEnvValues m) (envValuesToSave m)
              (map Key (envVars m))) \<subseteq> Key ` set (envVars m)"
    using recordKey_computeChanges [of "existingEnvValues m" "envValuesToSave m" "map Key (envVars m)"]
    by simp
  from rd have c: "confirming m \<longrightarrow> dom (envValuesToSave m) = Key ` set (envVars m)"
    by (simp add: ready_def)
  have p: "\<forall>ls. err (fst (Init initialModel w0 flt)) = None
               \<and> openAndScan flt w0 ''.env'' = Opened (ls, False)
            \<longrightarrow> dom (existingEnvValues m) =
                  {k. \<exists>l\<in>set ls. \<exists>v. decodeExistingConfigLine l = Some (k, v)}"
    using Init_existing [of w0 flt] by (simp add: x existingLoop_dom)
  from r e x c k p show ?thesis by blast
qed

theorem collected_keys_are_template_keys_witness:
  "\<exists>m. run (fst (Init initialModel scenarioWorld noFaults), scenarioWorld)
          [(OtherMsg, scenarioReply)] = Some (m, scenarioWorld)
     \<and> confirming m
     \<and> dom (envValuesToSave m) = Key ` set (envVars m)
     \<and> recordKey ` set (computeChanges (existingEnvValues m) (envValuesToSave m)
                               (map Key (envVars m))) \<subseteq> Key ` set (envVars m)
     \<and> openAndScan noFaults scenarioWorld ''.env'' = Opened ([''A=old'', ''B='', ''X=1''], False)
     \<and> dom (existingEnvValues m) =
          {k. \<exists>l\<in>set [''A=old'', ''B='', ''X=1'']. \<exists>v. decodeExistingConfigLine l = Some (k, v)}"
proof -
  from collected_keys_are_template_keys [of scenarioWorld noFaults "[(OtherMsg, scenarioReply)]"]
  obtain m w where
    r: "run (fst (Init initialModel scenarioWorld noFaults), scenarioWorld)
          [(OtherMsg, scenarioReply)] = Some (m, w)"
    and c: "confirming m \<longrightarrow>
          dom (envValuesToSave m) = Key ` set (envVars m)
          \<and> recordKey ` set (computeChanges (existingEnvValues m) (envValuesToSave m)
                               (map Key (envVars m))) \<subseteq> Key ` set (envVars m)"
    and p: "\<forall>ls. err (fst (Init initialModel scenarioWorld noFaults)) = None
               \<and> openAndScan noFaults scenarioWorld ''.env'' = Opened (ls, False)
            \<longrightarrow> dom (existingEnvValues m) =
                  {k. \<exists>l\<in>set ls. \<exists>v. decodeExistingConfigLine l = Some (k, v)}"
    by (elim exE conjE) (rule that)
  note s = sc_state [OF r]
  have e: "err (fst (Init initialModel scenarioWorld noFaults)) = None"
    unfolding sc_init fst_conv by (simp add: initialModel_def)
  have o: "openAndScan noFaults scenarioWorld ''.env'' = Opened ([''A=old'', ''B='', ''X=1''], False)"
    using sc_scan by (simp add: openAndScan_def scenarioWorld_def noFaults_def)
  from p e o have "dom (existingEnvValues m) =
          {k. \<exists>l\<in>set [''A=old'', ''B='', ''X=1'']. \<exists>v. decodeExistingConfigLine l = Some (k, v)}"
    by blast
  with r s(1,4) c o show ?thesis by blast
qed

text \<open>
  Claim C7: after a successful \<^verbatim>\<open>Init\<close> there is one input per template entry,
  and its initial value is the value of the prior configuration when the key is
  there with a value that is not empty, otherwise the default of the template when
  that is not empty, otherwise the empty string.
\<close>

theorem initial_value_priority:
  assumes "Init initialModel w flt = (m, c)" and "err m = None"
  shows "length (formFields m) = length (envVars m)
       \<and> (\<forall>i<length (envVars m).
             formFields m ! i =
               Input (let envVar = envVars m ! i;
                          existing = existingEnvValues m (Key envVar)
                      in if \<exists>v. existing = Some v \<and> v \<noteq> [] then the existing
                         else if ExampleValue envVar \<noteq> [] then ExampleValue envVar
                         else []))"
proof -
  from assms obtain vars where
    v: "readEnvVarsFromFile flt w ''.env.example'' = Inr vars" and n: "vars \<noteq> []"
    by (auto simp: Init_def initialModel_def split: sum.splits if_splits)
  define existing where "existing =
                  (case readExistingEnvFile flt w ''.env'' of
                     (values, None) \<Rightarrow> values
                   | (values, Some e) \<Rightarrow> Map.empty)"
  from assms(1) v n have m: "m = initialModel\<lparr>envVars := vars,
                  existingEnvValues := existing,
                  formFields := map (\<lambda>envVar. Input (initialValueOf existing envVar)) vars,
                  form := Some StateNormal\<rparr>"
    by (simp add: Init_def existing_def Let_def)
  have "initialValueOf existing e =
          (if \<exists>v. existing (Key e) = Some v \<and> v \<noteq> [] then the (existing (Key e))
           else if ExampleValue e \<noteq> [] then ExampleValue e else [])" for e
    by (cases "existing (Key e)") (auto simp: initialValueOf_def Let_def)
  then show ?thesis
    by (simp add: m Let_def)
qed

theorem initial_value_priority_witness:
  "err (fst (Init initialModel scenarioWorld noFaults)) = None
   \<and> map Key (envVars (fst (Init initialModel scenarioWorld noFaults))) = [''A'', ''B'', ''C'']
   \<and> map ExampleValue (envVars (fst (Init initialModel scenarioWorld noFaults))) = [''1'', ''2'', []]
   \<and> existingEnvValues (fst (Init initialModel scenarioWorld noFaults)) ''A'' = Some ''old''
   \<and> existingEnvValues (fst (Init initialModel scenarioWorld noFaults)) ''B'' = Some []
   \<and> existingEnvValues (fst (Init initialModel scenarioWorld noFaults)) ''C'' = None
   \<and> formFields (fst (Init initialModel scenarioWorld noFaults)) ! 0 = Input ''old''
   \<and> formFields (fst (Init initialModel scenarioWorld noFaults)) ! 1 = Input ''2''
   \<and> formFields (fst (Init initialModel scenarioWorld noFaults)) ! 2 = Input []"
proof -
  have e: "err (fst (Init initialModel scenarioWorld noFaults)) = None"
    unfolding sc_init fst_conv by (simp add: initialModel_def)
  have p: "Init initialModel scenarioWorld noFaults =
      (fst (Init initialModel scenarioWorld noFaults), snd (Init initialModel scenarioWorld noFaults))"
    by simp
  from initial_value_priority [OF p e]
  have "\<forall>i<length (envVars (fst (Init initialModel scenarioWorld noFaults))).
          formFields (fst (Init initialModel scenarioWorld noFaults)) ! i =
               Input (let envVar = envVars (fst (Init initialModel scenarioWorld noFaults)) ! i;
                          existing = existingEnvValues (fst (Init initialModel scenarioWorld noFaults)) (Key envVar)
                      in if \<exists>v. existing = Some v \<and> v \<noteq> [] then the existing
                         else if ExampleValue envVar \<noteq> [] then ExampleValue envVar
                         else [])"
    by blast
  then have "formFields (fst (Init initialModel scenarioWorld noFaults)) ! 0 = Input ''old''"
    and "formFields (fst (Init initialModel scenarioWorld noFaults)) ! 1 = Input ''2''"
    and "formFields (fst (Init initialModel scenarioWorld noFaults)) ! 2 = Input []"
    unfolding sc_init fst_conv by (simp_all add: initialModel_def)
  then show ?thesis
    unfolding sc_init fst_conv by (simp add: initialModel_def)
qed



end
